theory Spec2Isabelle
  imports
    Complex_Main
    "HOL-Library.Char_ord"
    "HOL-Library.List_Lexorder"
    "HOL-Library.Multiset"
    "HOL-Library.Word"
begin

unbundle bit_operations_syntax

section \<open>Python strings\<close>

text \<open>
  A Python \<open>str\<close> is modelled as a \<open>string\<close>; the characters are read as code points
  below 256. \<open>str.lower\<close> maps the capital letters of that range (\<open>A\<close> to \<open>Z\<close>, and
  U+00C0 to U+00DE without the multiplication sign U+00D7) to the small ones,
  \<open>str.strip\<close> removes the white space of that range (U+0009 to U+000D, U+001C to
  U+0020, U+0085, U+00A0), and the order of strings (used by \<open>sorted\<close>) is the
  lexicographic order of the character codes, as in Python.
\<close>

definition lower_char :: "char \<Rightarrow> char" where
  "lower_char c =
     (let n = (of_char c :: nat) in
      if (65 \<le> n \<and> n \<le> 90) \<or> (192 \<le> n \<and> n \<le> 222 \<and> n \<noteq> 215) then char_of (n + 32) else c)"

definition lower :: "string \<Rightarrow> string" where
  "lower s = map lower_char s"

definition is_space :: "char \<Rightarrow> bool" where
  "is_space c =
     (let n = (of_char c :: nat) in
      n = 32 \<or> (9 \<le> n \<and> n \<le> 13) \<or> (28 \<le> n \<and> n \<le> 31) \<or> n = 133 \<or> n = 160)"

definition strip :: "string \<Rightarrow> string" where
  "strip s = rev (dropWhile is_space (rev (dropWhile is_space s)))"

text \<open>\<open>s.split(sep)\<close> for a one-character separator: never an empty list.\<close>

fun split_on :: "char \<Rightarrow> string \<Rightarrow> string list" where
  "split_on sep [] = [[]]"
| "split_on sep (c # cs) =
     (if c = sep then [] # split_on sep cs
      else (case split_on sep cs of [] \<Rightarrow> [[c]] | w # ws \<Rightarrow> (c # w) # ws))"

text \<open>\<open>sep.join(xs)\<close>.\<close>

fun join :: "string \<Rightarrow> string list \<Rightarrow> string" where
  "join sep [] = []"
| "join sep [x] = x"
| "join sep (x # y # ys) = x @ sep @ join sep (y # ys)"

text \<open>Truthiness of an optional string: \<open>None\<close> and \<open>''\<close> are falsy.\<close>

fun truthy :: "string option \<Rightarrow> bool" where
  "truthy None = False"
| "truthy (Some s) = (s \<noteq> [])"

section \<open>Listing records\<close>

text \<open>
  The dictionary built by \<open>_extract_detail_data\<close>, stored by \<open>_save_details_to_mongo\<close>
  and read by the notifier. The asking price is kept as the number that
  \<open>_normalize_price\<close> reads from it (\<open>None\<close> when the value is missing or is not a
  number). \<open>established\<close> is always \<open>None\<close> in the source and is left out.
\<close>

record detail =
  title :: string
  city :: string
  state :: string
  asking_price :: "rat option"
  gross_revenue :: string
  cashflow :: string
  description :: string
  url :: string
  category :: "string list"
  original_category :: string
  listing_id :: string
  broker_name :: string
  broker_profile :: string
  broker_number :: string
  scraped_date :: string

section \<open>Notification engine: matching\<close>

text \<open>\<open>_normalize_price\<close> on the stored price.\<close>

definition normalize_price :: "rat option \<Rightarrow> rat option" where
  "normalize_price v = v"

text \<open>
  \<open>_normalize_list_field\<close>: a falsy field gives the empty list; otherwise the
  no-break spaces are removed, the text is split at the commas and every non-blank
  item is kept, stripped.
\<close>

definition normalize_list_field :: "string option \<Rightarrow> string list" where
  "normalize_list_field field_value =
     (if \<not> truthy field_value then []
      else map strip
        (filter (\<lambda>item. item \<noteq> [] \<and> strip item \<noteq> [])
          (split_on (CHR '','') (filter (\<lambda>c. c \<noteq> CHR 0xA0) (the field_value)))))"

text \<open>
  \<open>set(s)\<close> for a string \<open>s\<close>: the set of its characters, each a string of length
  one.
\<close>

definition set_of_str :: "string \<Rightarrow> string set" where
  "set_of_str s = set (map (\<lambda>c. [c]) s)"

text \<open>
  \<open>_listing_matches_subscriber\<close>, with the price bounds typed \<open>Optional[float]\<close> as in
  its signature.
\<close>

definition listing_matches_subscriber ::
  "detail \<Rightarrow> rat option \<Rightarrow> rat option \<Rightarrow> string set \<Rightarrow> string set \<Rightarrow> string set \<Rightarrow> bool" where
  "listing_matches_subscriber listing min_price max_price
       subscriber_industries subscriber_states subscriber_cities =
     (let price = normalize_price (asking_price listing) in
      if (min_price \<noteq> None \<and> price \<noteq> None) \<and> the price < the min_price then False
      else if (max_price \<noteq> None \<and> price \<noteq> None) \<and> the price > the max_price then False
      else if subscriber_industries \<noteq> {} \<and>
              subscriber_industries \<inter>
                set (map (\<lambda>cat. strip (lower cat)) (filter (\<lambda>cat. cat \<noteq> []) (category listing))) = {}
           then False
      else if subscriber_states \<noteq> {} \<and>
              subscriber_states \<inter> set_of_str (lower (state listing)) = {}
           then False
      else if subscriber_cities \<noteq> {} \<and>
              subscriber_cities \<inter> set_of_str (lower (city listing)) = {}
           then False
      else True)"

text \<open>
  A member of the audience list. \<open>merge_fields\<close> is \<open>None\<close> when the key is missing;
  the dictionary itself holds the five preference fields and any other merge fields
  of the list.
\<close>

record merge_fields =
  DPR_MIN :: "rat option"
  DPR_MAX :: "rat option"
  INDUSTRIES :: "string option"
  STATES :: "string option"
  CITIES :: "string option"
  other_fields :: "(string \<times> string) list"

record subscriber =
  email_address :: "string option"
  merge_fields :: "merge_fields option"

text \<open>The empty dictionary \<open>{}\<close>: no key at all.\<close>

definition empty_merge_fields :: "merge_fields \<Rightarrow> bool" where
  "empty_merge_fields mf \<longleftrightarrow>
     DPR_MIN mf = None \<and> DPR_MAX mf = None \<and> INDUSTRIES mf = None \<and> STATES mf = None \<and>
     CITIES mf = None \<and> other_fields mf = []"

text \<open>
  A Python dictionary with insertion order: assigning to a key that exists keeps its
  position.
\<close>

fun dict_set :: "('k \<times> 'v) list \<Rightarrow> 'k \<Rightarrow> 'v \<Rightarrow> ('k \<times> 'v) list" where
  "dict_set [] k v = [(k, v)]"
| "dict_set ((k', v') # kvs) k v =
     (if k' = k then (k, v) # kvs else (k', v') # dict_set kvs k v)"

text \<open>The inner loop of \<open>match_subscribers_to_listings\<close> for one subscriber.\<close>

definition matched_listings :: "merge_fields \<Rightarrow> detail list \<Rightarrow> detail list" where
  "matched_listings mf listings =
     filter (\<lambda>listing. listing_matches_subscriber listing (DPR_MIN mf) (DPR_MAX mf)
               (set (map lower (normalize_list_field (INDUSTRIES mf))))
               (set (map lower (normalize_list_field (STATES mf))))
               (set (map lower (normalize_list_field (CITIES mf)))))
       listings"

text \<open>One pass of the outer loop of \<open>match_subscribers_to_listings\<close>.\<close>

definition match_step ::
  "detail list \<Rightarrow> (string \<times> detail list) list \<Rightarrow> subscriber \<Rightarrow> (string \<times> detail list) list" where
  "match_step listings matches sub =
     (if \<not> truthy (email_address sub) then matches
      else case merge_fields sub of
        None \<Rightarrow> matches
      | Some mf \<Rightarrow>
          if empty_merge_fields mf then matches
          else let ml = matched_listings mf listings in
               if ml \<noteq> [] then dict_set matches (the (email_address sub)) ml else matches)"

definition match_subscribers_to_listings ::
  "subscriber list \<Rightarrow> detail list \<Rightarrow> (string \<times> detail list) list" where
  "match_subscribers_to_listings subs listings = foldl (match_step listings) [] subs"

section \<open>Notification engine: grouping\<close>

subsection \<open>\<open>hashlib.md5\<close>\<close>

text \<open>
  \<open>str.encode()\<close> is UTF-8 on the code points below 256; \<open>hashlib.md5\<close> is MD5 as in
  RFC 1321, on bytes, with 32-bit words that wrap.
\<close>

type_synonym byte = "8 word"

definition utf8_encode :: "string \<Rightarrow> byte list" where
  "utf8_encode s =
     concat (map (\<lambda>c. let n = (of_char c :: byte) in
                        if n < 128 then [n] else [192 + drop_bit 6 n, 128 + (n AND 63)]) s)"

definition md5_shifts :: "nat list" where
  "md5_shifts =
     [7, 12, 17, 22, 7, 12, 17, 22, 7, 12, 17, 22, 7, 12, 17, 22,
      5, 9, 14, 20, 5, 9, 14, 20, 5, 9, 14, 20, 5, 9, 14, 20,
      4, 11, 16, 23, 4, 11, 16, 23, 4, 11, 16, 23, 4, 11, 16, 23,
      6, 10, 15, 21, 6, 10, 15, 21, 6, 10, 15, 21, 6, 10, 15, 21]"

definition md5_sines :: "32 word list" where
  "md5_sines =
     [0xd76aa478, 0xe8c7b756, 0x242070db, 0xc1bdceee,
      0xf57c0faf, 0x4787c62a, 0xa8304613, 0xfd469501,
      0x698098d8, 0x8b44f7af, 0xffff5bb1, 0x895cd7be,
      0x6b901122, 0xfd987193, 0xa679438e, 0x49b40821,
      0xf61e2562, 0xc040b340, 0x265e5a51, 0xe9b6c7aa,
      0xd62f105d, 0x02441453, 0xd8a1e681, 0xe7d3fbc8,
      0x21e1cde6, 0xc33707d6, 0xf4d50d87, 0x455a14ed,
      0xa9e3e905, 0xfcefa3f8, 0x676f02d9, 0x8d2a4c8a,
      0xfffa3942, 0x8771f681, 0x6d9d6122, 0xfde5380c,
      0xa4beea44, 0x4bdecfa9, 0xf6bb4b60, 0xbebfbc70,
      0x289b7ec6, 0xeaa127fa, 0xd4ef3085, 0x04881d05,
      0xd9d4d039, 0xe6db99e5, 0x1fa27cf8, 0xc4ac5665,
      0xf4292244, 0x432aff97, 0xab9423a7, 0xfc93a039,
      0x655b59c3, 0x8f0ccc92, 0xffeff47d, 0x85845dd1,
      0x6fa87e4f, 0xfe2ce6e0, 0xa3014314, 0x4e0811a1,
      0xf7537e82, 0xbd3af235, 0x2ad7d2bb, 0xeb86d391]"

text \<open>
  The message with the padding: one 0x80 byte, zeros up to 56 modulo 64, and the
  length in bits as 8 bytes, least significant first.\<close>

definition md5_pad :: "byte list \<Rightarrow> byte list" where
  "md5_pad msg =
     msg @ [128] @ replicate ((119 - length msg mod 64) mod 64) 0 @
     map (\<lambda>i. ucast (drop_bit (8 * i) (8 * word_of_nat (length msg) :: 64 word))) [0..<8]"

fun le_word :: "byte list \<Rightarrow> 32 word" where
  "le_word [] = 0"
| "le_word (b # bs) = ucast b + 256 * le_word bs"

fun chunks :: "nat \<Rightarrow> 'a list \<Rightarrow> 'a list list" where
  "chunks n xs = (if n = 0 \<or> xs = [] then [] else take n xs # chunks n (drop n xs))"

declare chunks.simps [simp del]

type_synonym md5_state = "32 word \<times> 32 word \<times> 32 word \<times> 32 word"

definition md5_round :: "32 word list \<Rightarrow> md5_state \<Rightarrow> nat \<Rightarrow> md5_state" where
  "md5_round m st i =
     (case st of (a, b, c, d) \<Rightarrow>
        let (f, g) =
              (if i < 16 then ((b AND c) OR (NOT b AND d), i)
               else if i < 32 then ((d AND b) OR (NOT d AND c), (5 * i + 1) mod 16)
               else if i < 48 then (b XOR c XOR d, (3 * i + 5) mod 16)
               else (c XOR (b OR NOT d), (7 * i) mod 16));
            f' = f + a + md5_sines ! i + m ! g
        in (d, b + word_rotl (md5_shifts ! i) f', b, c))"

definition md5_block :: "md5_state \<Rightarrow> byte list \<Rightarrow> md5_state" where
  "md5_block st block =
     (case st of (a0, b0, c0, d0) \<Rightarrow>
        case foldl (md5_round (map le_word (chunks 4 block))) st [0..<64] of
          (a, b, c, d) \<Rightarrow> (a0 + a, b0 + b, c0 + c, d0 + d))"

definition md5 :: "byte list \<Rightarrow> md5_state" where
  "md5 msg =
     foldl md5_block (0x67452301, 0xefcdab89, 0x98badcfe, 0x10325476) (chunks 64 (md5_pad msg))"

definition hex_digit :: "byte \<Rightarrow> char" where
  "hex_digit n = (if n < 10 then char_of (48 + unat n) else char_of (87 + unat n))"

definition hex_byte :: "byte \<Rightarrow> string" where
  "hex_byte b = [hex_digit (drop_bit 4 b), hex_digit (b AND 15)]"

definition hexdigest :: "md5_state \<Rightarrow> string" where
  "hexdigest st =
     (case st of (a, b, c, d) \<Rightarrow>
        concat (map (\<lambda>w. concat (map (\<lambda>i. hex_byte (ucast (drop_bit (8 * i) w))) [0..<4]))
                 [a, b, c, d]))"

subsection \<open>Group keys and groups\<close>

text \<open>The identifier of a listing in \<open>_create_listings_hash\<close>: \<open>url\<close>, or \<open>title\<close> when
  the url is falsy.\<close>

definition listing_ident :: "detail \<Rightarrow> string" where
  "listing_ident listing = (if url listing \<noteq> [] then url listing else title listing)"

definition listings_content :: "detail list \<Rightarrow> string" where
  "listings_content listings = join ''|'' (sort (map listing_ident listings))"

definition create_listings_hash :: "detail list \<Rightarrow> string" where
  "create_listings_hash listings = take 8 (hexdigest (md5 (utf8_encode (listings_content listings))))"

text \<open>
  \<open>group_subscribers_by_matches\<close>: \<open>groups\<close> is a dictionary from the hash to the pair
  of the e-mail list and the listings of the first subscriber with that hash.
\<close>

type_synonym groups = "(string \<times> string list \<times> detail list) list"

definition group_step :: "groups \<Rightarrow> string \<times> detail list \<Rightarrow> groups" where
  "group_step groups em =
     (case em of (email, matched) \<Rightarrow>
        let listings_hash = create_listings_hash matched;
            groups' = (if listings_hash \<notin> fst ` set groups
                       then groups @ [(listings_hash, [], matched)] else groups)
        in map (\<lambda>(k, emails, ls). if k = listings_hash then (k, emails @ [email], ls)
                                   else (k, emails, ls)) groups')"

definition group_subscribers_by_matches :: "(string \<times> detail list) list \<Rightarrow> groups" where
  "group_subscribers_by_matches matches = foldl group_step [] matches"

section \<open>Notification engine: dispatch\<close>

text \<open>
  The notifier object and the campaign platform, as far as \<open>notify\<close> reads them: the
  API key and the list id, whether the segment of a group is created
  (\<open>_create_segment_for_group\<close> returns an id) and whether its campaign is sent
  (\<open>_send_campaign_to_segment\<close> returns \<open>True\<close>); both catch the platform's errors.
  A campaign is the segment's e-mail list with the listings it shows. \<open>notify\<close> raises
  \<open>RuntimeError\<close> when the key or the list id is not set; \<open>subs\<close> is what
  \<open>fetch_subscribers\<close> returns.
\<close>

datatype py_error = StoreError | RuntimeError

record platform =
  api_key :: string
  list_id :: string
  segment_created :: "string \<Rightarrow> bool"
  campaign_sent :: "string \<Rightarrow> bool"

record summary =
  matched_subscribers :: nat
  emails_sent :: nat
  groups_created :: nat

type_synonym campaign = "string list \<times> detail list"

definition dispatch_step ::
  "platform \<Rightarrow> nat \<times> nat \<times> campaign list \<Rightarrow> string \<times> string list \<times> detail list \<Rightarrow>
   nat \<times> nat \<times> campaign list" where
  "dispatch_step p acc g =
     (case acc of (sent, processed, campaigns) \<Rightarrow>
      case g of (listings_hash, group_emails, group_listings) \<Rightarrow>
        if \<not> segment_created p listings_hash then acc
        else if campaign_sent p listings_hash
          then (sent + length group_emails, processed + 1,
                campaigns @ [(group_emails, group_listings)])
        else acc)"

definition notify ::
  "platform \<Rightarrow> subscriber list \<Rightarrow> detail list \<Rightarrow> py_error + (summary \<times> campaign list)" where
  "notify p subs filtered_listing_details =
     (if api_key p = [] then Inl RuntimeError
      else if list_id p = [] then Inl RuntimeError
      else
        let matches = match_subscribers_to_listings subs filtered_listing_details in
        if matches = [] then
          Inr (\<lparr>matched_subscribers = 0, emails_sent = 0, groups_created = 0\<rparr>, [])
        else
          case foldl (dispatch_step p) (0, 0, []) (group_subscribers_by_matches matches) of
            (sent, processed, campaigns) \<Rightarrow>
              Inr (\<lparr>matched_subscribers = length matches, emails_sent = sent,
                    groups_created = processed\<rparr>, campaigns))"

section \<open>Document store\<close>

text \<open>
  The collection is the list of its documents, in natural order, with counters for the
  round trips. \<open>up\<close> says whether the store answers; a call to a store that does not
  raises in the driver. The documents are the ones this program writes, so each has
  the fields of \<open>detail\<close>.
\<close>

record mongo =
  docs :: "detail list"
  up :: bool
  finds :: nat
  bulk_writes :: nat

subsection \<open>Freshness filter\<close>

text \<open>A candidate of the URL discovery; a missing key reads as the empty string.\<close>

record candidate =
  cand_title :: string
  cand_url :: string
  cand_listing_id :: string

text \<open>\<open>col.find({'url': {'$in': url_list}})\<close>: one query.\<close>

definition find_url_in :: "mongo \<Rightarrow> string list \<Rightarrow> py_error + (detail list \<times> mongo)" where
  "find_url_in col url_list =
     (if \<not> up col then Inl StoreError
      else Inr (filter (\<lambda>d. url d \<in> set url_list) (docs col), col\<lparr>finds := finds col + 1\<rparr>))"

text \<open>The filter step of \<open>main\<close> (and of \<open>run_daily_scraping\<close>).\<close>

definition freshness_filter :: "mongo \<Rightarrow> candidate list \<Rightarrow> py_error + (candidate list \<times> mongo)" where
  "freshness_filter col listing_urls =
     (let url_list = filter (\<lambda>u. u \<noteq> []) (map cand_url listing_urls) in
      case find_url_in col url_list of
        Inl e \<Rightarrow> Inl e
      | Inr (found, col') \<Rightarrow>
          let existing = set (map url found) in
          Inr (filter (\<lambda>u. cand_url u \<notin> existing) listing_urls, col'))"

subsection \<open>Persistence\<close>

text \<open>The filter of an \<open>UpdateOne\<close>: \<open>listing_id\<close> when it is truthy, else \<open>url\<close>.\<close>

datatype filter_key = ByListingId string | ByUrl string

definition upsert_key :: "detail \<Rightarrow> filter_key" where
  "upsert_key d = (if listing_id d \<noteq> [] then ByListingId (listing_id d) else ByUrl (url d))"

fun matches_key :: "filter_key \<Rightarrow> detail \<Rightarrow> bool" where
  "matches_key (ByListingId x) doc = (listing_id doc = x)"
| "matches_key (ByUrl u) doc = (url doc = u)"

text \<open>
  \<open>UpdateOne(key, {'$set': d}, upsert=True)\<close> on the documents: the first document
  that matches the key takes every field of \<open>d\<close>, and counts as modified when that
  changes it; \<open>None\<close> when no document matches.
\<close>

fun update_one :: "filter_key \<Rightarrow> detail \<Rightarrow> detail list \<Rightarrow> (detail list \<times> nat) option" where
  "update_one k d [] = None"
| "update_one k d (x # xs) =
     (if matches_key k x then Some (d # xs, if x = d then 0 else 1)
      else case update_one k d xs of
             None \<Rightarrow> None
           | Some (ys, m) \<Rightarrow> Some (x # ys, m))"

record bulk_result =
  upserted_ids :: nat
  modified_count :: nat

text \<open>
  \<open>bulk_write(ops, ordered=False)\<close>, the operations taken in the order of the list.
  With no match the upsert inserts the key's field together with the fields of \<open>d\<close>,
  which is \<open>d\<close> itself.
\<close>

definition bulk_step :: "detail list \<times> bulk_result \<Rightarrow> detail \<Rightarrow> detail list \<times> bulk_result" where
  "bulk_step acc d =
     (case acc of (ds, r) \<Rightarrow>
        case update_one (upsert_key d) d ds of
          None \<Rightarrow> (ds @ [d], r\<lparr>upserted_ids := upserted_ids r + 1\<rparr>)
        | Some (ds', m) \<Rightarrow> (ds', r\<lparr>modified_count := modified_count r + m\<rparr>))"

definition bulk_write :: "mongo \<Rightarrow> detail list \<Rightarrow> py_error + (bulk_result \<times> mongo)" where
  "bulk_write col ops =
     (if \<not> up col then Inl StoreError
      else case foldl bulk_step (docs col, \<lparr>upserted_ids = 0, modified_count = 0\<rparr>) ops of
             (ds, r) \<Rightarrow> Inr (r, col\<lparr>docs := ds, bulk_writes := bulk_writes col + 1\<rparr>))"

text \<open>\<open>_save_details_to_mongo\<close>: an error of the store is logged and gives 0.\<close>

definition save_details_to_mongo :: "mongo \<Rightarrow> detail list \<Rightarrow> nat \<times> mongo" where
  "save_details_to_mongo col details =
     (if details = [] then (0, col)
      else case bulk_write col details of
             Inl e \<Rightarrow> (0, col)
           | Inr (result, col') \<Rightarrow> (upserted_ids result + modified_count result, col'))"

section \<open>Enrichment client\<close>

text \<open>
  What the classification service answers to one request: the call raises, or the
  text is not JSON, or it is a JSON object. For the categories the object is read at
  \<open>category\<close> (the empty list when the key is missing); for the location it is a
  dictionary of strings.
\<close>

datatype cat_response = CatRaised | CatNotJson | CatJson "string list"

datatype loc_response = LocRaised | LocNotJson | LocJson "(string \<times> string) list"

definition categories :: "string list" where
  "categories =
     [''Agriculture'', ''Automotive'', ''Boat'', ''Beauty'', ''Personal Care'',
      ''Building'', ''Construction'', ''Communication'', ''Media'', ''Education'',
      ''Children'', ''Entertainment'', ''Recreation'', ''Financial Services'',
      ''Health Care'', ''Fitness'', ''Manufacturing'', ''Non-classifiable Establishments'',
      ''Online'', ''Technology'', ''Pet Services'', ''Restaurants'', ''Food'',
      ''Retail'', ''Service Businesses'', ''Real Estate'']"

definition categorize_listing :: "string \<Rightarrow> cat_response \<Rightarrow> string list" where
  "categorize_listing raw_category r =
     (case r of
        CatRaised \<Rightarrow> (if raw_category \<noteq> [] then [raw_category] else [])
      | CatNotJson \<Rightarrow> (if raw_category \<noteq> [] then [raw_category] else [])
      | CatJson cats \<Rightarrow>
          let valid_categories = filter (\<lambda>cat. cat \<in> set categories) cats in
          if valid_categories \<noteq> [] then valid_categories
          else (if raw_category \<noteq> [] then [raw_category] else []))"

text \<open>
  \<open>ai_extract_city_and_state\<close>: \<open>Some\<close> dictionary, or \<open>None\<close> where the function ends
  without a \<open>return\<close> (after logging the text that is not JSON).
\<close>

definition ai_extract_city_and_state :: "loc_response \<Rightarrow> (string \<times> string) list option" where
  "ai_extract_city_and_state r =
     (case r of
        LocRaised \<Rightarrow> Some []
      | LocNotJson \<Rightarrow> None
      | LocJson result \<Rightarrow> Some result)"

text \<open>\<open>d.get(k, '')\<close> on a dictionary of strings.\<close>

definition dict_get :: "(string \<times> string) list \<Rightarrow> string \<Rightarrow> string" where
  "dict_get d k = (case map_of d k of None \<Rightarrow> [] | Some v \<Rightarrow> v)"

section \<open>Detail acquisition\<close>

subsection \<open>Extraction\<close>

text \<open>
  The rendered page as the scraper reads it: the text matched by the access-denied
  XPath (\<open>None\<close> when \<open>get_element_text\<close> finds nothing), the dictionary that
  \<open>_extract_json_ld_data\<close> builds from the Product script (a key is set only for a
  truthy value), the stripped texts of the elements of the three CSS selectors, and
  whether the starting-bid XPath finds an element. The wait for the content marker
  \<open>span\<close> of class \<open>f-l\<close> looks at the same elements as \<open>span_f_l\<close>; its result is
  not used by the source.
\<close>

record json_ld =
  jd_title :: "string option"
  jd_description :: "string option"
  jd_asking_price :: "rat option"
  jd_category :: "string option"
  jd_listing_id :: "string option"
  jd_broker_name :: "string option"
  jd_broker_profile :: "string option"

record page =
  access_denied_txt :: "string option"
  json_data :: json_ld
  span_f_l :: "string list"
  ctc_phone :: "string list"
  help_g4 :: "string list"
  starting_bid :: bool

definition extract_location :: "page \<Rightarrow> string" where
  "extract_location p = (case span_f_l p of [] \<Rightarrow> [] | t # _ \<Rightarrow> t)"

definition extract_broker_number :: "page \<Rightarrow> string" where
  "extract_broker_number p = (case ctc_phone p of [] \<Rightarrow> [] | t # _ \<Rightarrow> t)"

definition extract_gross_revenue :: "page \<Rightarrow> string" where
  "extract_gross_revenue p = (if length (help_g4 p) \<ge> 3 then help_g4 p ! 2 else [])"

definition extract_cashflow :: "page \<Rightarrow> string" where
  "extract_cashflow p = (if length (help_g4 p) \<ge> 2 then help_g4 p ! 1 else [])"

definition get_or :: "'a option \<Rightarrow> 'a \<Rightarrow> 'a" where
  "get_or v dflt = (case v of None \<Rightarrow> dflt | Some x \<Rightarrow> x)"

text \<open>
  \<open>_extract_detail_data\<close>, with the two answers of the classification service and the
  clock. The test of the asking price is the truthiness of the value: a missing price
  and the number 0 are falsy (the price is modelled as a number; a price given as a
  text is outside the model). Reading \<open>city\<close> from \<open>None\<close> raises, which the function
  catches: it returns \<open>None\<close>.
\<close>

definition extract_detail_data ::
  "page \<Rightarrow> candidate \<Rightarrow> cat_response \<Rightarrow> loc_response \<Rightarrow> string \<Rightarrow> detail option" where
  "extract_detail_data p url_data cat_r loc_r now =
     (let jd = json_data p;
          location = extract_location p;
          broker_number = extract_broker_number p;
          gross_revenue = extract_gross_revenue p;
          cashflow = extract_cashflow p
      in if (jd_asking_price jd \<noteq> None \<and> jd_asking_price jd \<noteq> Some 0) \<and> location \<noteq> [] then
           let original_category = get_or (jd_category jd) [];
               title = get_or (jd_title jd) (cand_title url_data);
               description = get_or (jd_description jd) [];
               ai_categories = categorize_listing original_category cat_r
           in case ai_extract_city_and_state loc_r of
                None \<Rightarrow> None
              | Some location \<Rightarrow>
                  Some \<lparr>title = title,
                        city = dict_get location ''city'',
                        state = dict_get location ''state'',
                        asking_price = jd_asking_price jd,
                        gross_revenue = gross_revenue,
                        cashflow = cashflow,
                        description = description,
                        url = cand_url url_data,
                        category = ai_categories,
                        original_category = original_category,
                        listing_id = get_or (jd_listing_id jd) (cand_listing_id url_data),
                        broker_name = get_or (jd_broker_name jd) [],
                        broker_profile = get_or (jd_broker_profile jd) [],
                        broker_number = broker_number,
                        scraped_date = now\<rparr>
         else None)"

subsection \<open>Sessions and attempts\<close>

text \<open>
  The scraper object: whether \<open>self.driver\<close> is a driver (and not \<open>None\<close>), the urls
  navigated to and the number of calls of \<open>reset_driver\<close>.
\<close>

record scraper =
  driver :: bool
  navigations :: "string list"
  resets :: nat

text \<open>
  \<open>reset_driver\<close>: closing the old driver may raise, and then the old driver stays
  (a missing driver always raises); otherwise \<open>_create_driver\<close> gives a new driver or
  \<open>None\<close>. No error leaves the function.
\<close>

datatype reset_outcome = CloseRaised | DriverCreated | DriverNotCreated

definition reset_driver :: "scraper \<Rightarrow> reset_outcome \<Rightarrow> scraper" where
  "reset_driver s r =
     (let s' = s\<lparr>resets := resets s + 1\<rparr> in
      if \<not> driver s then s'
      else case r of
             CloseRaised \<Rightarrow> s'
           | DriverCreated \<Rightarrow> s'\<lparr>driver := True\<rparr>
           | DriverNotCreated \<Rightarrow> s'\<lparr>driver := False\<rparr>)"

text \<open>
  What one pass of the loop meets: how the navigation (and the read of the page
  source) ends, the page, the answers of the classification service, the clock, and
  how a reset would end.
\<close>

datatype nav_outcome = NavOk | NavTimeout | NavWebDriverError | NavOtherError

record attempt =
  nav :: nav_outcome
  rendered :: page
  cat_answer :: cat_response
  loc_answer :: loc_response
  clock :: string
  reset_result :: reset_outcome

definition max_trials :: nat where
  "max_trials = 2"

text \<open>
  The \<open>while\<close> loop of \<open>_scrape_listing_detail_selenium\<close>; \<open>env t\<close> is what pass \<open>t\<close>
  meets. The \<open>finally\<close> clause adds one to \<open>trials\<close> on every way through the body.
  Falling out of the loop returns \<open>None\<close>.
\<close>

function scrape_loop ::
  "(nat \<Rightarrow> attempt) \<Rightarrow> candidate \<Rightarrow> nat \<Rightarrow> scraper \<Rightarrow> detail option \<times> scraper" where
  "scrape_loop env url_data trials s =
     (if trials \<le> max_trials then
        if \<not> driver s then (None, s)
        else
          let a = env trials;
              s1 = s\<lparr>navigations := navigations s @ [cand_url url_data]\<rparr>
          in case nav a of
               NavOk \<Rightarrow>
                 if truthy (access_denied_txt (rendered a))
                 then scrape_loop env url_data (trials + 1) (reset_driver s1 (reset_result a))
                 else (case extract_detail_data (rendered a) url_data (cat_answer a)
                              (loc_answer a) (clock a) of
                         Some detail_data \<Rightarrow> (Some detail_data, s1)
                       | None \<Rightarrow>
                           if starting_bid (rendered a) then (None, s1)
                           else scrape_loop env url_data (trials + 1)
                                  (reset_driver s1 (reset_result a)))
             | NavTimeout \<Rightarrow>
                 scrape_loop env url_data (trials + 1) (reset_driver s1 (reset_result a))
             | NavWebDriverError \<Rightarrow>
                 scrape_loop env url_data (trials + 1) (reset_driver s1 (reset_result a))
             | NavOtherError \<Rightarrow>
                 scrape_loop env url_data (trials + 1) (reset_driver s1 (reset_result a))
      else (None, s))"
  by pat_completeness auto
termination
  by (relation "measure (\<lambda>(env, url_data, trials, s). Suc max_trials - trials)") auto

declare scrape_loop.simps [simp del]

definition scrape_listing_detail_selenium ::
  "(nat \<Rightarrow> attempt) \<Rightarrow> string set \<Rightarrow> candidate \<Rightarrow> scraper \<Rightarrow> detail option \<times> scraper" where
  "scrape_listing_detail_selenium env recent_scrapped_listings_urls url_data s =
     (if cand_url url_data = [] then (None, s)
      else if cand_url url_data \<in> recent_scrapped_listings_urls then (None, s)
      else scrape_loop env url_data 1 s)"

subsection \<open>Worker pool\<close>

text \<open>
  \<open>_process_urls_threaded\<close> with \<open>max_concurrent = 1\<close>, as \<open>main\<close> sets it: the
  candidates are scraped one after the other with the one driver of the object;
  \<open>envs i\<close> is what candidate number \<open>i\<close> meets. The result is the integer 0 or the
  list of the details.
\<close>

fun scrape_all ::
  "(nat \<Rightarrow> nat \<Rightarrow> attempt) \<Rightarrow> nat \<Rightarrow> candidate list \<Rightarrow> scraper \<Rightarrow> detail option list \<times> scraper" where
  "scrape_all envs i [] s = ([], s)"
| "scrape_all envs i (url_data # rest) s =
     (case scrape_listing_detail_selenium (envs i) {} url_data s of
        (r, s') \<Rightarrow> (case scrape_all envs (i + 1) rest s' of (rs, s'') \<Rightarrow> (r # rs, s'')))"

datatype pool_result = IntResult int | Details "detail list"

definition process_urls_threaded ::
  "(nat \<Rightarrow> nat \<Rightarrow> attempt) \<Rightarrow> candidate list \<Rightarrow> scraper \<Rightarrow> mongo \<Rightarrow>
   pool_result \<times> scraper \<times> mongo" where
  "process_urls_threaded envs urls_to_process s col =
     (case scrape_all envs 0 urls_to_process s of
        (results, s') \<Rightarrow>
          let all_details = concat (map (\<lambda>r. case r of None \<Rightarrow> [] | Some d \<Rightarrow> [d]) results) in
          if all_details = [] then (IntResult 0, s', col)
          else case save_details_to_mongo col all_details of
                 (new_count, col') \<Rightarrow> (Details all_details, s', col'))"

definition process_urls_directly ::
  "(nat \<Rightarrow> nat \<Rightarrow> attempt) \<Rightarrow> candidate list \<Rightarrow> scraper \<Rightarrow> mongo \<Rightarrow>
   pool_result \<times> scraper \<times> mongo" where
  "process_urls_directly envs urls_to_process s col =
     process_urls_threaded envs urls_to_process s col"

section \<open>Predicates of the claims\<close>

text \<open>
  The identifying key of the specification: the external id when present, otherwise
  the url; for a candidate and for the stored documents.
\<close>

definition spec_candidate_key :: "candidate \<Rightarrow> string" where
  "spec_candidate_key c = (if cand_listing_id c \<noteq> [] then cand_listing_id c else cand_url c)"

definition spec_stored_keys :: "mongo \<Rightarrow> string set" where
  "spec_stored_keys col =
     set (map (\<lambda>d. if listing_id d \<noteq> [] then listing_id d else url d) (docs col))"

text \<open>
  The primary key of the specification for the stored records: the external id
  (\<open>listing_id\<close>) when it is present, otherwise the url. A document is found by the
  key of a record when it carries that external id, or, for a record without one, that
  url; two records have the same primary key when the external id of the first is
  present and is the one of the second, or both have none and their urls agree. The
  records of a batch have keys apart when none of them is found by the key of another;
  a batch is unseen in a store when no stored document is found by the key of one of
  its records; \<open>changed\<close> counts the positions at which two batches differ.
\<close>

definition found_by_key_of :: "detail \<Rightarrow> detail \<Rightarrow> bool" where
  "found_by_key_of d x \<longleftrightarrow>
     (if listing_id d \<noteq> [] then listing_id x = listing_id d else url x = url d)"

definition same_primary_key :: "detail \<Rightarrow> detail \<Rightarrow> bool" where
  "same_primary_key d d' \<longleftrightarrow>
     (if listing_id d \<noteq> [] then listing_id d' = listing_id d
      else listing_id d' = [] \<and> url d' = url d)"

fun keys_apart :: "detail list \<Rightarrow> bool" where
  "keys_apart [] = True"
| "keys_apart (d # ds) =
     ((\<forall>x\<in>set ds. \<not> found_by_key_of d x \<and> \<not> found_by_key_of x d) \<and> keys_apart ds)"

definition unseen :: "mongo \<Rightarrow> detail list \<Rightarrow> bool" where
  "unseen col details \<longleftrightarrow> (\<forall>d\<in>set details. \<forall>x\<in>set (docs col). \<not> found_by_key_of d x)"

definition changed :: "detail list \<Rightarrow> detail list \<Rightarrow> nat" where
  "changed olds news = length (filter (\<lambda>p. fst p \<noteq> snd p) (zip olds news))"

text \<open>
  An attempt detects the access-denied signature (\<open>blocked\<close>); the content marker is
  absent and no auction marker is recognized (\<open>marker_missing\<close>); an attempt fails:
  the navigation raises, or the page is blocked, or no record is extracted and no
  auction marker is recognized. \<open>navigated\<close> is the scraper after one more navigation
  to the candidate's url.
\<close>

definition blocked :: "attempt \<Rightarrow> bool" where
  "blocked a \<longleftrightarrow> truthy (access_denied_txt (rendered a))"

definition marker_missing :: "attempt \<Rightarrow> bool" where
  "marker_missing a \<longleftrightarrow> span_f_l (rendered a) = [] \<and> \<not> starting_bid (rendered a)"

definition attempt_fails :: "candidate \<Rightarrow> attempt \<Rightarrow> bool" where
  "attempt_fails url_data a \<longleftrightarrow>
     nav a \<noteq> NavOk \<or> blocked a \<or>
     (extract_detail_data (rendered a) url_data (cat_answer a) (loc_answer a) (clock a) = None \<and>
      \<not> starting_bid (rendered a))"

definition navigated :: "scraper \<Rightarrow> candidate \<Rightarrow> scraper" where
  "navigated s url_data = s\<lparr>navigations := navigations s @ [cand_url url_data]\<rparr>"






definition skipped :: "subscriber \<Rightarrow> bool" where
  "skipped sub \<longleftrightarrow>
     \<not> truthy (email_address sub) \<or>
     (case merge_fields sub of None \<Rightarrow> True | Some mf \<Rightarrow> empty_merge_fields mf)"

definition group_members :: "groups \<Rightarrow> string set" where
  "group_members gs = (\<Union>g\<in>set gs. set (fst (snd g)))"

definition campaigns_of :: "py_error + (summary \<times> campaign list) \<Rightarrow> campaign list" where
  "campaigns_of r = (case r of Inl e \<Rightarrow> [] | Inr (s, cs) \<Rightarrow> cs)"

definition recipients :: "campaign list \<Rightarrow> string set" where
  "recipients cs = (\<Union>c\<in>set cs. set (fst c))"

definition grouped :: "groups \<Rightarrow> string \<Rightarrow> string \<Rightarrow> bool" where
  "grouped gs e h \<longleftrightarrow> (\<exists>g\<in>set gs. fst g = h \<and> e \<in> set (fst (snd g)))"

section \<open>Concrete inputs\<close>

definition blank_detail :: detail where
  "blank_detail = \<lparr>title = [], city = [], state = [], asking_price = None,
     gross_revenue = [], cashflow = [], description = [], url = [], category = [],
     original_category = [], listing_id = [], broker_name = [], broker_profile = [],
     broker_number = [], scraped_date = []\<rparr>"

text \<open>A store with one listing, and the same listing discovered under a new url.\<close>

definition store_one :: mongo where
  "store_one =
     \<lparr>docs = [blank_detail\<lparr>url := ''https://site/old-address'', listing_id := ''123''\<rparr>],
      up = True, finds = 0, bulk_writes = 0\<rparr>"

definition cand_moved :: candidate where
  "cand_moved =
     \<lparr>cand_title = ''Diner'', cand_url = ''https://site/new-address'', cand_listing_id = ''123''\<rparr>"

text \<open>
  An empty store; a listing with an external id scraped on two days, the second day
  under a new url; and a listing without an external id scraped on the same two days.
\<close>

definition store_empty :: mongo where
  "store_empty = \<lparr>docs = [], up = True, finds = 0, bulk_writes = 0\<rparr>"

definition diner_first :: detail where
  "diner_first = blank_detail\<lparr>title := ''Diner'', url := ''https://site/diner'',
     listing_id := ''123'', scraped_date := ''2025-01-01 08:00:00''\<rparr>"

definition diner_again :: detail where
  "diner_again = diner_first\<lparr>url := ''https://site/diner-for-sale'',
     scraped_date := ''2025-01-02 08:00:00''\<rparr>"

definition cafe_first :: detail where
  "cafe_first = blank_detail\<lparr>title := ''Cafe'', url := ''https://site/cafe'',
     scraped_date := ''2025-01-01 08:05:00''\<rparr>"

definition cafe_again :: detail where
  "cafe_again = cafe_first\<lparr>scraped_date := ''2025-01-02 08:05:00''\<rparr>"

text \<open>
  A candidate, its page with price and location, the answers of the service and the
  record they give; the same attempt with a page that shows the access-denied text, and
  with an answer for the location that is not JSON.
\<close>

definition cand_diner :: candidate where
  "cand_diner = \<lparr>cand_title = ''Diner'', cand_url = ''https://site/diner'', cand_listing_id = ''123''\<rparr>"

definition diner_page :: page where
  "diner_page =
     \<lparr>access_denied_txt = None,
      json_data = \<lparr>jd_title = Some ''Diner for sale'', jd_description = Some ''A diner.'',
                   jd_asking_price = Some 500000, jd_category = Some ''Restaurant'',
                   jd_listing_id = Some ''123'', jd_broker_name = Some ''Ann'',
                   jd_broker_profile = Some ''https://site/ann''\<rparr>,
      span_f_l = [''Las Vegas, NV''],
      ctc_phone = [''702-555-0100''],
      help_g4 = [''$500,000'', ''$120,000'', ''$900,000''],
      starting_bid = False\<rparr>"

definition diner_attempt :: attempt where
  "diner_attempt =
     \<lparr>nav = NavOk, rendered = diner_page,
      cat_answer = CatJson [''Restaurants'', ''Food'', ''Diners''],
      loc_answer = LocJson [(''state'', ''nevada''), (''city'', ''las vegas'')],
      clock = ''2025-01-01 08:00:00'', reset_result = DriverCreated\<rparr>"

definition diner_detail :: detail where
  "diner_detail =
     \<lparr>title = ''Diner for sale'', city = ''las vegas'', state = ''nevada'',
      asking_price = Some 500000, gross_revenue = ''$900,000'', cashflow = ''$120,000'',
      description = ''A diner.'', url = ''https://site/diner'',
      category = [''Restaurants'', ''Food''], original_category = ''Restaurant'',
      listing_id = ''123'', broker_name = ''Ann'', broker_profile = ''https://site/ann'',
      broker_number = ''702-555-0100'', scraped_date = ''2025-01-01 08:00:00''\<rparr>"

definition blocked_attempt :: attempt where
  "blocked_attempt =
     diner_attempt\<lparr>rendered := diner_page\<lparr>access_denied_txt := Some ''Access Denied''\<rparr>\<rparr>"

definition not_json_attempt :: attempt where
  "not_json_attempt = diner_attempt\<lparr>loc_answer := LocNotJson\<rparr>"

definition fresh_scraper :: scraper where
  "fresh_scraper = \<lparr>driver = True, navigations = [], resets = 0\<rparr>"

definition env_retry :: "nat \<Rightarrow> attempt" where
  "env_retry t = (if t = 1 then blocked_attempt else diner_attempt)"

text \<open>
  The same run when the reset after the first pass creates no driver: the first pass
  meets the access-denied text, a second pass would meet the page of the listing.
\<close>

definition env_lost :: "nat \<Rightarrow> attempt" where
  "env_lost t =
     (if t = 1 then blocked_attempt\<lparr>reset_result := DriverNotCreated\<rparr> else diner_attempt)"

text \<open>
  A second listing, profiles with and without constraints, subscribers, and a campaign
  platform on which every call succeeds.
\<close>

definition hotel_detail :: detail where
  "hotel_detail = diner_detail\<lparr>title := ''Hotel for sale'', asking_price := Some 900000,
     url := ''https://site/hotel'', category := [''Real Estate''], listing_id := ''456''\<rparr>"

definition no_prefs :: merge_fields where
  "no_prefs = \<lparr>DPR_MIN = None, DPR_MAX = None, INDUSTRIES = None, STATES = None,
     CITIES = None, other_fields = [(''FNAME'', ''Bob'')]\<rparr>"


definition sub_any :: subscriber where
  "sub_any = \<lparr>email_address = Some ''bob@example.org'', merge_fields = Some no_prefs\<rparr>"

definition sub_nevada :: subscriber where
  "sub_nevada = \<lparr>email_address = Some ''ann@example.org'',
     merge_fields = Some (no_prefs\<lparr>STATES := Some ''nevada''\<rparr>)\<rparr>"

definition sub_empty :: subscriber where
  "sub_empty = \<lparr>email_address = Some ''eve@example.org'',
     merge_fields = Some \<lparr>DPR_MIN = None, DPR_MAX = None, INDUSTRIES = None, STATES = None,
       CITIES = None, other_fields = []\<rparr>\<rparr>"

definition all_sent :: platform where
  "all_sent = \<lparr>api_key = ''0123456789abcdef-us1'', list_id = ''7881b0503b'',
     segment_created = (\<lambda>h. True), campaign_sent = (\<lambda>h. True)\<rparr>"

text \<open>
  Listings identified by their urls: one whose url holds the separator of the two
  others, and two whose urls have the same first eight hexadecimal digits of MD5.
\<close>

definition listing_a :: detail where
  "listing_a = blank_detail\<lparr>title := ''Bakery'', url := ''https://s/1''\<rparr>"

definition listing_b :: detail where
  "listing_b = blank_detail\<lparr>title := ''Cafe'', url := ''https://s/2''\<rparr>"

definition listing_ab :: detail where
  "listing_ab = blank_detail\<lparr>title := ''Garage'', url := ''https://s/1|https://s/2''\<rparr>"

definition listing_x :: detail where
  "listing_x = blank_detail\<lparr>title := ''Laundry'', url := ''https://s/16868''\<rparr>"

definition listing_y :: detail where
  "listing_y = blank_detail\<lparr>title := ''Florist'', url := ''https://s/21315''\<rparr>"

section \<open>Freshness filter\<close>

lemma existing_iff:
  assumes "c \<in> set cs"
  shows "(cand_url c \<in> url ` {d \<in> set (docs col). url d \<in> set (filter (\<lambda>u. u \<noteq> []) (map cand_url cs))})
         \<longleftrightarrow> (cand_url c \<noteq> [] \<and> cand_url c \<in> url ` set (docs col))"
proof
  assume "cand_url c \<in> url ` {d \<in> set (docs col). url d \<in> set (filter (\<lambda>u. u \<noteq> []) (map cand_url cs))}"
  then obtain d where "d \<in> set (docs col)" "url d \<in> set (filter (\<lambda>u. u \<noteq> []) (map cand_url cs))"
      "cand_url c = url d"
    by (elim imageE CollectE conjE)
  then show "cand_url c \<noteq> [] \<and> cand_url c \<in> url ` set (docs col)"
    by simp
next
  assume h: "cand_url c \<noteq> [] \<and> cand_url c \<in> url ` set (docs col)"
  then obtain d where d: "d \<in> set (docs col)" "cand_url c = url d"
    by (elim conjE imageE)
  have "cand_url c \<in> cand_url ` set cs"
    using assms by (rule imageI)
  with h d have "url d \<in> set (filter (\<lambda>u. u \<noteq> []) (map cand_url cs))"
    by simp
  with d(1) have "d \<in> {d \<in> set (docs col). url d \<in> set (filter (\<lambda>u. u \<noteq> []) (map cand_url cs))}"
    by simp
  then have "url d \<in> url ` {d \<in> set (docs col). url d \<in> set (filter (\<lambda>u. u \<noteq> []) (map cand_url cs))}"
    by (rule imageI)
  with d(2) show "cand_url c \<in> url ` {d \<in> set (docs col). url d \<in> set (filter (\<lambda>u. u \<noteq> []) (map cand_url cs))}"
    by simp
qed

lemma freshness_filter_eq:
  "freshness_filter col cs =
     (if up col
      then Inr (filter (\<lambda>c. cand_url c = [] \<or> cand_url c \<notin> url ` set (docs col)) cs,
                col\<lparr>finds := finds col + 1\<rparr>)
      else Inl StoreError)"
proof -
  have "filter (\<lambda>c. cand_url c \<notin> url ` {d \<in> set (docs col). url d \<in> set (filter (\<lambda>u. u \<noteq> []) (map cand_url cs))}) cs
      = filter (\<lambda>c. cand_url c = [] \<or> cand_url c \<notin> url ` set (docs col)) cs"
    by (rule filter_cong [OF refl]) (simp only: existing_iff de_Morgan_conj not_not)
  then show ?thesis
    by (simp add: freshness_filter_def find_url_in_def Let_def)
qed

text \<open>
  C1, as stated, fails: the candidate \<open>cand_moved\<close> has the external id 123, which is the
  key of a stored document, and the filter keeps it, because its url is not stored.
\<close>

theorem C1_counterexample:
  "spec_candidate_key cand_moved \<in> spec_stored_keys store_one \<and>
   freshness_filter store_one [cand_moved] = Inr ([cand_moved], store_one\<lparr>finds := 1\<rparr>)"
  by (simp add: freshness_filter_eq spec_candidate_key_def spec_stored_keys_def store_one_def
      cand_moved_def blank_detail_def)

text \<open>
  C1, amended: on a store that answers, the freshness filter returns, in their order,
  exactly the candidates whose url is empty or is not the url of a stored document, and
  it asks the store once (one \<open>$in\<close> query on url, whatever the number of
  candidates); the external id is not read. So no candidate with a non-empty url that
  is already stored is in the output.
\<close>

theorem C1_freshness_filter_by_url:
  "up col \<Longrightarrow>
   freshness_filter col cs =
     Inr (filter (\<lambda>c. cand_url c = [] \<or> cand_url c \<notin> url ` set (docs col)) cs,
          col\<lparr>finds := finds col + 1\<rparr>)"
  by (simp add: freshness_filter_eq)

text \<open>
  Of two candidates, the one whose url is stored is removed and the other is kept, with one
  query.
\<close>

theorem C1_freshness_filter_by_url_witness:
  "up store_one \<and>
   freshness_filter store_one [cand_moved\<lparr>cand_url := ''https://site/old-address''\<rparr>, cand_moved] =
     Inr ([cand_moved], store_one\<lparr>finds := 1\<rparr>)"
proof -
  have u: "up store_one"
    by (simp add: store_one_def)
  show ?thesis
    using u C1_freshness_filter_by_url [OF u, of "[cand_moved\<lparr>cand_url := ''https://site/old-address''\<rparr>, cand_moved]"]
    by (simp add: store_one_def cand_moved_def)
qed

section \<open>Persistence\<close>

lemma matches_upsert_key: "matches_key (upsert_key d) d"
  by (simp add: upsert_key_def)

lemma matches_same_key: "upsert_key d' = upsert_key d \<Longrightarrow> matches_key (upsert_key d) d'"
  using matches_upsert_key [of d'] by simp

lemma update_one_None_iff: "update_one k d xs = None \<longleftrightarrow> (\<forall>x\<in>set xs. \<not> matches_key k x)"
proof (induction xs)
  case Nil
  show ?case by simp
next
  case (Cons x xs)
  show ?case
  proof (cases "matches_key k x")
    case True
    then show ?thesis by simp
  next
    case False
    show ?thesis
    proof (cases "update_one k d xs")
      case None
      with False Cons.IH show ?thesis by simp
    next
      case (Some p)
      with False Cons.IH show ?thesis by (simp add: case_prod_unfold)
    qed
  qed
qed

lemma update_one_length: "update_one k d xs = Some (ys, m) \<Longrightarrow> length ys = length xs"
proof (induction xs arbitrary: ys m)
  case Nil
  then show ?case by simp
next
  case (Cons x xs)
  show ?case
  proof (cases "matches_key k x")
    case True
    with Cons.prems have "ys = d # xs" by simp
    then show ?thesis by simp
  next
    case False
    with Cons.prems obtain zs where z: "update_one k d xs = Some (zs, m)" "ys = x # zs"
      by (simp split: option.splits prod.splits)
    from Cons.IH [OF z(1)] z(2) show ?thesis by simp
  qed
qed

lemma update_one_filter:
  assumes "matches_key k d"
  shows "update_one k d xs = Some (ys, m) \<Longrightarrow>
         length (filter (matches_key k) ys) = length (filter (matches_key k) xs) \<and> d \<in> set ys \<and> m \<le> 1"
proof (induction xs arbitrary: ys m)
  case Nil
  then show ?case by simp
next
  case (Cons x xs)
  show ?case
  proof (cases "matches_key k x")
    case True
    with Cons.prems have "ys = d # xs" "m = (if x = d then 0 else 1)"
      by simp_all
    with True assms show ?thesis by simp
  next
    case False
    with Cons.prems obtain zs where z: "update_one k d xs = Some (zs, m)" "ys = x # zs"
      by (simp split: option.splits prod.splits)
    from Cons.IH [OF z(1)] z(2) False show ?thesis by simp
  qed
qed

lemma update_one_append_fresh:
  "\<forall>x\<in>set xs. \<not> matches_key k x \<Longrightarrow> matches_key k x0 \<Longrightarrow>
   update_one k d (xs @ [x0]) = Some (xs @ [d], if x0 = d then 0 else 1)"
  by (induction xs) simp_all

lemma save_single:
  "up col \<Longrightarrow>
   save_details_to_mongo col [d] =
     (case update_one (upsert_key d) d (docs col) of
        None \<Rightarrow> (1, col\<lparr>docs := docs col @ [d], bulk_writes := bulk_writes col + 1\<rparr>)
      | Some (ds', m) \<Rightarrow> (m, col\<lparr>docs := ds', bulk_writes := bulk_writes col + 1\<rparr>))"
  by (simp add: save_details_to_mongo_def bulk_write_def bulk_step_def split: option.splits)

lemma bulk_step_None:
  "update_one (upsert_key d) d ds = None \<Longrightarrow>
   bulk_step (ds, r) d = (ds @ [d], r\<lparr>upserted_ids := upserted_ids r + 1\<rparr>)"
  by (simp add: bulk_step_def)

lemma bulk_step_Some:
  "update_one (upsert_key d) d ds = Some (zs, m) \<Longrightarrow>
   bulk_step (ds, r) d = (zs, r\<lparr>modified_count := modified_count r + m\<rparr>)"
  by (simp add: bulk_step_def)

lemma bulk_fold_length:
  "foldl bulk_step (ds, r) ops = (ds', r') \<Longrightarrow>
   length ds' + upserted_ids r = length ds + upserted_ids r'"
proof (induction ops arbitrary: ds r)
  case Nil
  then show ?case by simp
next
  case (Cons d ops)
  show ?case
  proof (cases "update_one (upsert_key d) d ds")
    case None
    with Cons.prems have "foldl bulk_step (ds @ [d], r\<lparr>upserted_ids := upserted_ids r + 1\<rparr>) ops = (ds', r')"
      by (simp add: bulk_step_None)
    from Cons.IH [OF this] show ?thesis by simp
  next
    case (Some p)
    obtain zs m where p: "p = (zs, m)" by (cases p)
    with Some have u: "update_one (upsert_key d) d ds = Some (zs, m)" by simp
    with Cons.prems have "foldl bulk_step (zs, r\<lparr>modified_count := modified_count r + m\<rparr>) ops = (ds', r')"
      by (simp add: bulk_step_Some)
    from Cons.IH [OF this] update_one_length [OF u] show ?thesis by simp
  qed
qed

lemma save_batch:
  assumes "up col" "details \<noteq> []"
  shows "\<exists>r col'. bulk_write col details = Inr (r, col') \<and>
           save_details_to_mongo col details = (upserted_ids r + modified_count r, col') \<and>
           length (docs col') = length (docs col) + upserted_ids r \<and>
           bulk_writes col' = bulk_writes col + 1 \<and> finds col' = finds col \<and> up col'"
proof -
  obtain ds' r' where f: "foldl bulk_step (docs col, \<lparr>upserted_ids = 0, modified_count = 0\<rparr>) details = (ds', r')"
    by (cases "foldl bulk_step (docs col, \<lparr>upserted_ids = 0, modified_count = 0\<rparr>) details")
  from bulk_fold_length [OF f] have "length ds' = length (docs col) + upserted_ids r'"
    by simp
  with f assms show ?thesis
    by (simp add: save_details_to_mongo_def bulk_write_def)
qed

lemma save_single_up:
  assumes "up col" "save_details_to_mongo col [d] = (n, col')"
  shows "up col' \<and> bulk_writes col' = bulk_writes col + 1 \<and> d \<in> set (docs col')"
proof (cases "update_one (upsert_key d) d (docs col)")
  case None
  with assms have "col' = col\<lparr>docs := docs col @ [d], bulk_writes := bulk_writes col + 1\<rparr>"
    by (simp add: save_single eq_commute)
  with assms(1) show ?thesis by simp
next
  case (Some p)
  obtain zs m where p: "p = (zs, m)" by (cases p)
  with Some have u: "update_one (upsert_key d) d (docs col) = Some (zs, m)" by simp
  from update_one_filter [OF matches_upsert_key u] have mem: "d \<in> set zs" by simp
  from assms u have "col' = col\<lparr>docs := zs, bulk_writes := bulk_writes col + 1\<rparr>"
    by (simp add: save_single eq_commute)
  with assms(1) mem show ?thesis by simp
qed

lemma found_by_key_of_iff: "found_by_key_of d x \<longleftrightarrow> matches_key (upsert_key d) x"
  by (simp add: found_by_key_of_def upsert_key_def)

lemma same_primary_key_iff: "same_primary_key d d' \<longleftrightarrow> upsert_key d' = upsert_key d"
  by (auto simp add: same_primary_key_def upsert_key_def)

lemma update_one_at:
  "\<forall>x\<in>set pre. \<not> matches_key k x \<Longrightarrow> matches_key k x0 \<Longrightarrow>
   update_one k d (pre @ x0 # post) = Some (pre @ d # post, if x0 = d then 0 else 1)"
  by (induction pre) simp_all

lemma fold_fresh:
  "\<forall>x\<in>set ds. \<forall>d\<in>set ops. \<not> found_by_key_of d x \<Longrightarrow> keys_apart ops \<Longrightarrow>
   foldl bulk_step (ds, r) ops = (ds @ ops, r\<lparr>upserted_ids := upserted_ids r + length ops\<rparr>)"
proof (induction ops arbitrary: ds r)
  case Nil
  show ?case by simp
next
  case (Cons d ops)
  from Cons.prems(1) have "\<forall>x\<in>set ds. \<not> matches_key (upsert_key d) x"
    by (simp add: found_by_key_of_iff)
  then have u: "update_one (upsert_key d) d ds = None"
    by (simp only: update_one_None_iff)
  have a: "\<forall>x\<in>set (ds @ [d]). \<forall>d'\<in>set ops. \<not> found_by_key_of d' x"
    using Cons.prems by auto
  have b: "keys_apart ops"
    using Cons.prems(2) by simp
  show ?case
    by (simp add: bulk_step_None [OF u] Cons.IH [OF a b])
qed

lemma fold_again:
  "list_all2 same_primary_key olds news \<Longrightarrow> keys_apart news \<Longrightarrow>
   \<forall>x\<in>set pre. \<forall>d\<in>set news. \<not> found_by_key_of d x \<Longrightarrow>
   foldl bulk_step (pre @ olds, r) news =
     (pre @ news, r\<lparr>modified_count := modified_count r + changed olds news\<rparr>)"
proof (induction olds news arbitrary: pre r rule: list_all2_induct)
  case Nil
  show ?case by (simp add: changed_def)
next
  case (Cons a as b bs)
  from Cons.prems(2) have n: "\<forall>x\<in>set pre. \<not> matches_key (upsert_key b) x"
    by (simp add: found_by_key_of_iff)
  from Cons.hyps(1) have m: "matches_key (upsert_key b) a"
    using matches_upsert_key [of a] by (simp add: same_primary_key_iff)
  note u = update_one_at [OF n m, of b as]
  have x: "\<forall>x\<in>set (pre @ [b]). \<forall>d\<in>set bs. \<not> found_by_key_of d x"
    using Cons.prems by auto
  have y: "keys_apart bs"
    using Cons.prems(1) by simp
  have "foldl bulk_step (pre @ a # as, r) (b # bs) =
        foldl bulk_step ((pre @ [b]) @ as, r\<lparr>modified_count := modified_count r + (if a = b then 0 else 1)\<rparr>) bs"
    by (simp add: bulk_step_Some [OF u])
  also have "\<dots> = ((pre @ [b]) @ bs,
      r\<lparr>modified_count := modified_count r + (if a = b then 0 else 1) + changed as bs\<rparr>)"
    using Cons.IH [OF y x, of "r\<lparr>modified_count := modified_count r + (if a = b then 0 else 1)\<rparr>"]
    by simp
  finally show ?case
    by (simp add: changed_def)
qed

lemma found_by_same_key: "same_primary_key d d' \<Longrightarrow> found_by_key_of d' x = found_by_key_of d x"
  by (simp add: found_by_key_of_iff same_primary_key_iff)

lemma found_by_key_fun: "found_by_key_of d = matches_key (upsert_key d)"
  by (rule ext) (rule found_by_key_of_iff)

lemma unseen_rescraped:
  "list_all2 same_primary_key olds news \<Longrightarrow>
   \<forall>d\<in>set olds. \<forall>x\<in>set base. \<not> found_by_key_of d x \<Longrightarrow>
   \<forall>x\<in>set base. \<forall>d\<in>set news. \<not> found_by_key_of d x"
proof (induction olds news rule: list_all2_induct)
  case Nil
  show ?case by simp
next
  case (Cons a as b bs)
  from Cons.prems have "\<forall>x\<in>set base. \<not> found_by_key_of a x" by simp
  with Cons.hyps(1) have h: "\<forall>x\<in>set base. \<not> found_by_key_of b x"
    by (simp add: found_by_same_key)
  from Cons.prems have "\<forall>d\<in>set as. \<forall>x\<in>set base. \<not> found_by_key_of d x" by simp
  from Cons.IH [OF this] h show ?case by simp
qed

lemma save_fresh_batch:
  assumes "up col" "details \<noteq> []" "keys_apart details" "unseen col details"
  shows "save_details_to_mongo col details =
         (length details, col\<lparr>docs := docs col @ details, bulk_writes := bulk_writes col + 1\<rparr>)"
proof -
  from assms(4) have "\<forall>x\<in>set (docs col). \<forall>d\<in>set details. \<not> found_by_key_of d x"
    by (simp add: unseen_def)
  from fold_fresh [OF this assms(3), of "\<lparr>upserted_ids = 0, modified_count = 0\<rparr>"]
  have "foldl bulk_step (docs col, \<lparr>upserted_ids = 0, modified_count = 0\<rparr>) details =
      (docs col @ details, \<lparr>upserted_ids = length details, modified_count = 0\<rparr>)"
    by simp
  with assms(1,2) show ?thesis
    by (simp add: save_details_to_mongo_def bulk_write_def)
qed

lemma save_batch_again:
  assumes "up col" "details \<noteq> []" "unseen col details" "keys_apart details2"
    "list_all2 same_primary_key details details2"
  shows "save_details_to_mongo (col\<lparr>docs := docs col @ details, bulk_writes := bulk_writes col + 1\<rparr>) details2 =
         (changed details details2, col\<lparr>docs := docs col @ details2, bulk_writes := bulk_writes col + 2\<rparr>)"
proof -
  from assms(3) have "\<forall>d\<in>set details. \<forall>x\<in>set (docs col). \<not> found_by_key_of d x"
    by (simp add: unseen_def)
  from unseen_rescraped [OF assms(5) this]
  have u: "\<forall>x\<in>set (docs col). \<forall>d\<in>set details2. \<not> found_by_key_of d x" .
  from fold_again [OF assms(5,4) u, of "\<lparr>upserted_ids = 0, modified_count = 0\<rparr>"]
  have f: "foldl bulk_step (docs col @ details, \<lparr>upserted_ids = 0, modified_count = 0\<rparr>) details2 =
      (docs col @ details2, \<lparr>upserted_ids = 0, modified_count = changed details details2\<rparr>)"
    by simp
  from assms(2,5) have ne: "details2 \<noteq> []"
    by (cases details2) simp_all
  from assms(1) ne f show ?thesis
    by (simp add: save_details_to_mongo_def bulk_write_def)
qed

lemma diner_records:
  "listing_id diner_first = ''123''" "listing_id diner_again = ''123''"
  "url diner_first = ''https://site/diner''" "url diner_again = ''https://site/diner-for-sale''"
  "scraped_date diner_again = ''2025-01-02 08:00:00''" "diner_first \<noteq> diner_again"
  by (simp_all add: diner_again_def diner_first_def blank_detail_def)

lemma cafe_records:
  "listing_id cafe_first = []" "listing_id cafe_again = []"
  "url cafe_first = ''https://site/cafe''" "url cafe_again = ''https://site/cafe''"
  "cafe_first \<noteq> cafe_again"
  by (simp_all add: cafe_again_def cafe_first_def blank_detail_def)

lemma store_empty_fields: "up store_empty" "docs store_empty = []" "bulk_writes store_empty = 0"
  by (simp_all add: store_empty_def)

text \<open>
  C7: persistence is an upsert by the primary key, the external id (\<open>listing_id\<close>)
  when it is present, else the url, written with one \<open>bulk_write\<close> per call.
  Persisting a record and then a record with the same primary key (the same listing
  scraped again, for instance with a later \<open>scraped_date\<close>, or under a new url when it
  has an external id) inserts nothing the second time: the number of documents, and of
  documents found by that key, stays, the second record is stored, and the second
  count is the modified count, at most 1. When no document was found by the key before,
  the first count is 1, exactly one document is found by the key afterwards and it is
  the second record (so its \<open>scraped_date\<close> is the later one). For every non-empty
  batch the returned count is the number of upserted documents plus the modified count
  of the one bulk write, and the collection grows by the number of upserted documents.
  A batch whose records have keys apart and are unseen in the store is appended record
  by record, and the count is its length; persisting after it a batch with the same
  primary keys, position by position, replaces every record by its successor, inserts
  nothing, and the count is the number of records that changed.
\<close>

theorem C7_idempotent_upsert:
  assumes "up col" and "same_primary_key d d'"
    and "save_details_to_mongo col [d] = (n1, col1)"
    and "save_details_to_mongo col1 [d'] = (n2, col2)"
  shows "length (docs col2) = length (docs col1) \<and>
         length (filter (found_by_key_of d) (docs col2)) =
           length (filter (found_by_key_of d) (docs col1)) \<and>
         d' \<in> set (docs col2) \<and>
         (\<exists>r. bulk_write col1 [d'] = Inr (r, col2) \<and> upserted_ids r = 0 \<and>
              n2 = upserted_ids r + modified_count r \<and> modified_count r \<le> 1) \<and>
         bulk_writes col2 = bulk_writes col + 2 \<and>
         ((\<forall>x\<in>set (docs col). \<not> found_by_key_of d x) \<longrightarrow>
            n1 = 1 \<and> docs col2 = docs col @ [d'] \<and>
            filter (found_by_key_of d) (docs col2) = [d'] \<and>
            n2 = (if d' = d then 0 else 1)) \<and>
         (\<forall>details. details \<noteq> [] \<longrightarrow>
            (\<exists>r col'. bulk_write col details = Inr (r, col') \<and>
               save_details_to_mongo col details = (upserted_ids r + modified_count r, col') \<and>
               length (docs col') = length (docs col) + upserted_ids r \<and>
               bulk_writes col' = bulk_writes col + 1)) \<and>
         (batch \<noteq> [] \<and> keys_apart batch \<and> unseen col batch \<longrightarrow>
            save_details_to_mongo col batch =
              (length batch, col\<lparr>docs := docs col @ batch, bulk_writes := bulk_writes col + 1\<rparr>) \<and>
            (keys_apart batch' \<and> list_all2 same_primary_key batch batch' \<longrightarrow>
               save_details_to_mongo
                   (col\<lparr>docs := docs col @ batch, bulk_writes := bulk_writes col + 1\<rparr>) batch' =
                 (changed batch batch',
                  col\<lparr>docs := docs col @ batch', bulk_writes := bulk_writes col + 2\<rparr>)))"
proof -
  let ?k = "upsert_key d"
  from assms(2) have k2: "upsert_key d' = upsert_key d"
    by (simp only: same_primary_key_iff)
  from save_single_up [OF assms(1) assms(3)]
  have up1: "up col1" and bw1: "bulk_writes col1 = bulk_writes col + 1" and mem: "d \<in> set (docs col1)"
    by simp_all
  have "\<not> (\<forall>x\<in>set (docs col1). \<not> matches_key ?k x)"
    using mem matches_upsert_key [of d] by blast
  then have "update_one ?k d' (docs col1) \<noteq> None"
    by (simp only: update_one_None_iff not_False_eq_True)
  then obtain zs m where u: "update_one (upsert_key d') d' (docs col1) = Some (zs, m)"
    using k2 by (cases "update_one ?k d' (docs col1)") auto
  from u k2 have u': "update_one ?k d' (docs col1) = Some (zs, m)" by simp
  from assms(4) up1 u have c2: "col2 = col1\<lparr>docs := zs, bulk_writes := bulk_writes col1 + 1\<rparr>" and n2: "n2 = m"
    by (simp_all add: save_single)
  from update_one_length [OF u'] have len: "length zs = length (docs col1)" .
  from update_one_filter [OF matches_same_key [OF k2] u']
  have flt: "length (filter (matches_key ?k) zs) = length (filter (matches_key ?k) (docs col1))"
    and mem': "d' \<in> set zs" and m1: "m \<le> 1"
    by simp_all
  have bw: "bulk_write col1 [d'] =
      Inr (\<lparr>upserted_ids = 0, modified_count = m\<rparr>, col2)"
    using up1 u c2 by (simp add: bulk_write_def bulk_step_def)
  have fresh: "n1 = 1 \<and> docs col2 = docs col @ [d'] \<and>
            filter (found_by_key_of d) (docs col2) = [d'] \<and> n2 = (if d' = d then 0 else 1)"
    if f0: "\<forall>x\<in>set (docs col). \<not> found_by_key_of d x"
  proof -
    from f0 have f: "\<forall>x\<in>set (docs col). \<not> matches_key ?k x"
      by (simp only: found_by_key_of_iff)
    from f have "update_one ?k d (docs col) = None"
      by (simp only: update_one_None_iff)
    with assms(1,3) have n1: "n1 = 1" and d1: "docs col1 = docs col @ [d]"
      by (auto simp add: save_single)
    from update_one_append_fresh [OF f matches_upsert_key, of d'] d1 u'
    have zs: "zs = docs col @ [d']" and m: "m = (if d = d' then 0 else 1)"
      by simp_all
    have "filter (matches_key ?k) (docs col) = []"
      using f by (simp add: filter_empty_conv)
    with zs c2 n1 n2 m matches_same_key [OF k2] show ?thesis
      by (auto simp add: found_by_key_fun)
  qed
  have ex: "\<exists>r. bulk_write col1 [d'] = Inr (r, col2) \<and> upserted_ids r = 0 \<and>
              n2 = upserted_ids r + modified_count r \<and> modified_count r \<le> 1"
    using bw n2 m1 by simp
  have a: "length (docs col2) = length (docs col1)"
    using c2 len by simp
  have b: "length (filter (found_by_key_of d) (docs col2)) =
      length (filter (found_by_key_of d) (docs col1))"
    using c2 flt by (simp add: found_by_key_fun)
  have c: "d' \<in> set (docs col2)"
    using c2 mem' by simp
  have e: "bulk_writes col2 = bulk_writes col + 2"
    using c2 bw1 by simp
  have f: "(\<forall>x\<in>set (docs col). \<not> found_by_key_of d x) \<longrightarrow>
            n1 = 1 \<and> docs col2 = docs col @ [d'] \<and>
            filter (found_by_key_of d) (docs col2) = [d'] \<and> n2 = (if d' = d then 0 else 1)"
    using fresh by (rule impI)
  have g: "\<forall>details. details \<noteq> [] \<longrightarrow>
            (\<exists>r col'. bulk_write col details = Inr (r, col') \<and>
               save_details_to_mongo col details = (upserted_ids r + modified_count r, col') \<and>
               length (docs col') = length (docs col) + upserted_ids r \<and>
               bulk_writes col' = bulk_writes col + 1)"
  proof (intro allI impI)
    fix details :: "detail list"
    assume "details \<noteq> []"
    from save_batch [OF assms(1) this]
    show "\<exists>r col'. bulk_write col details = Inr (r, col') \<and>
               save_details_to_mongo col details = (upserted_ids r + modified_count r, col') \<and>
               length (docs col') = length (docs col) + upserted_ids r \<and>
               bulk_writes col' = bulk_writes col + 1"
      by blast
  qed
  have h: "batch \<noteq> [] \<and> keys_apart batch \<and> unseen col batch \<longrightarrow>
            save_details_to_mongo col batch =
              (length batch, col\<lparr>docs := docs col @ batch, bulk_writes := bulk_writes col + 1\<rparr>) \<and>
            (keys_apart batch' \<and> list_all2 same_primary_key batch batch' \<longrightarrow>
               save_details_to_mongo
                   (col\<lparr>docs := docs col @ batch, bulk_writes := bulk_writes col + 1\<rparr>) batch' =
                 (changed batch batch',
                  col\<lparr>docs := docs col @ batch', bulk_writes := bulk_writes col + 2\<rparr>))"
  proof (intro impI conjI)
    assume p: "batch \<noteq> [] \<and> keys_apart batch \<and> unseen col batch"
    then have p1: "batch \<noteq> []" and p2: "keys_apart batch" and p3: "unseen col batch"
      by simp_all
    from assms(1) p1 p2 p3
    show "save_details_to_mongo col batch =
        (length batch, col\<lparr>docs := docs col @ batch, bulk_writes := bulk_writes col + 1\<rparr>)"
      by (rule save_fresh_batch)
  next
    assume p: "batch \<noteq> [] \<and> keys_apart batch \<and> unseen col batch"
      and q: "keys_apart batch' \<and> list_all2 same_primary_key batch batch'"
    from p have p1: "batch \<noteq> []" and p3: "unseen col batch"
      by simp_all
    from q have q1: "keys_apart batch'" and q2: "list_all2 same_primary_key batch batch'"
      by simp_all
    from assms(1) p1 p3 q1 q2
    show "save_details_to_mongo
            (col\<lparr>docs := docs col @ batch, bulk_writes := bulk_writes col + 1\<rparr>) batch' =
          (changed batch batch', col\<lparr>docs := docs col @ batch', bulk_writes := bulk_writes col + 2\<rparr>)"
      by (rule save_batch_again)
  qed
  from a b c ex e f g h show ?thesis
    by (intro conjI)
qed

text \<open>
  A listing with an external id is persisted into an empty store on one day and again on
  the next day under a new url: one document, with the later date and the new url, and
  each call returns 1 (one insert, then one modification). The same with a batch of
  two listings, the second without an external id: two documents, and each call
  returns 2.
\<close>

theorem C7_idempotent_upsert_witness:
  "up store_empty \<and> same_primary_key diner_first diner_again \<and>
   url diner_again \<noteq> url diner_first \<and>
   save_details_to_mongo store_empty [diner_first] =
     (1, store_empty\<lparr>docs := [diner_first], bulk_writes := 1\<rparr>) \<and>
   save_details_to_mongo (store_empty\<lparr>docs := [diner_first], bulk_writes := 1\<rparr>) [diner_again] =
     (1, store_empty\<lparr>docs := [diner_again], bulk_writes := 2\<rparr>) \<and>
   filter (found_by_key_of diner_first)
     (docs (store_empty\<lparr>docs := [diner_again], bulk_writes := 2\<rparr>)) = [diner_again] \<and>
   scraped_date diner_again = ''2025-01-02 08:00:00'' \<and>
   keys_apart [diner_first, cafe_first] \<and> unseen store_empty [diner_first, cafe_first] \<and>
   keys_apart [diner_again, cafe_again] \<and>
   list_all2 same_primary_key [diner_first, cafe_first] [diner_again, cafe_again] \<and>
   save_details_to_mongo store_empty [diner_first, cafe_first] =
     (2, store_empty\<lparr>docs := [diner_first, cafe_first], bulk_writes := 1\<rparr>) \<and>
   save_details_to_mongo (store_empty\<lparr>docs := [diner_first, cafe_first], bulk_writes := 1\<rparr>)
       [diner_again, cafe_again] =
     (2, store_empty\<lparr>docs := [diner_again, cafe_again], bulk_writes := 2\<rparr>)"
proof -
  note h1 = store_empty_fields(1)
  note se = store_empty_fields(2,3)
  have h2: "same_primary_key diner_first diner_again"
    by (simp add: same_primary_key_def diner_records)
  have mv: "url diner_again \<noteq> url diner_first"
    by (simp add: diner_records)
  have k: "matches_key (upsert_key diner_again) diner_first"
    by (simp add: upsert_key_def diner_records)
  have h3: "save_details_to_mongo store_empty [diner_first] =
     (1, store_empty\<lparr>docs := [diner_first], bulk_writes := 1\<rparr>)"
    by (simp add: save_single h1 se)
  have h4: "save_details_to_mongo (store_empty\<lparr>docs := [diner_first], bulk_writes := 1\<rparr>) [diner_again] =
     (1, store_empty\<lparr>docs := [diner_again], bulk_writes := 2\<rparr>)"
    using k diner_records(6) by (simp add: save_single h1 se)
  have e: "\<forall>x\<in>set (docs store_empty). \<not> found_by_key_of diner_first x"
    by (simp add: se)
  have b1: "keys_apart [diner_first, cafe_first]"
    by (simp add: found_by_key_of_def diner_records cafe_records)
  have b2: "unseen store_empty [diner_first, cafe_first]"
    by (simp add: unseen_def se)
  have b3: "keys_apart [diner_again, cafe_again]"
    by (simp add: found_by_key_of_def diner_records cafe_records)
  have b4: "list_all2 same_primary_key [diner_first, cafe_first] [diner_again, cafe_again]"
    by (simp add: same_primary_key_def diner_records cafe_records)
  note c7 = C7_idempotent_upsert [where batch = "[diner_first, cafe_first]"
      and batch' = "[diner_again, cafe_again]", OF h1 h2 h3 h4]
  note f = c7 [THEN conjunct2, THEN conjunct2, THEN conjunct2, THEN conjunct2, THEN conjunct2,
      THEN conjunct1, THEN mp, OF e]
  note fl = f [THEN conjunct2, THEN conjunct2, THEN conjunct1]
  have p: "[diner_first, cafe_first] \<noteq> [] \<and> keys_apart [diner_first, cafe_first] \<and>
      unseen store_empty [diner_first, cafe_first]"
    using b1 b2 by simp
  have q: "keys_apart [diner_again, cafe_again] \<and>
      list_all2 same_primary_key [diner_first, cafe_first] [diner_again, cafe_again]"
    using b3 b4 by simp
  note g = c7 [THEN conjunct2, THEN conjunct2, THEN conjunct2, THEN conjunct2, THEN conjunct2,
      THEN conjunct2, THEN conjunct2, THEN mp, OF p]
  have ch: "changed [diner_first, cafe_first] [diner_again, cafe_again] = 2"
    by (simp add: changed_def diner_records(6) cafe_records(5))
  from g [THEN conjunct1]
  have s1: "save_details_to_mongo store_empty [diner_first, cafe_first] =
     (2, store_empty\<lparr>docs := [diner_first, cafe_first], bulk_writes := 1\<rparr>)"
    by (simp add: se)
  from g [THEN conjunct2, THEN mp, OF q]
  have s2: "save_details_to_mongo (store_empty\<lparr>docs := [diner_first, cafe_first], bulk_writes := 1\<rparr>)
       [diner_again, cafe_again] =
     (2, store_empty\<lparr>docs := [diner_again, cafe_again], bulk_writes := 2\<rparr>)"
    by (simp add: se ch)
  from h1 h2 mv h3 h4 fl diner_records(5) b1 b2 b3 b4 s1 s2 show ?thesis
    by (intro conjI)
qed

section \<open>Detail acquisition\<close>

lemma loop_exhausted: "max_trials < trials \<Longrightarrow> scrape_loop env c trials s = (None, s)"
  by (subst scrape_loop.simps) simp

lemma loop_no_driver: "\<not> driver s \<Longrightarrow> scrape_loop env c trials s = (None, s)"
  by (subst scrape_loop.simps) simp

lemma loop_fail:
  assumes "trials \<le> max_trials" "driver s" "attempt_fails c (env trials)"
  shows "scrape_loop env c trials s =
         scrape_loop env c (trials + 1) (reset_driver (navigated s c) (reset_result (env trials)))"
proof (cases "nav (env trials)")
  case NavOk
  show ?thesis
  proof (cases "blocked (env trials)")
    case True
    with NavOk assms(1,2) show ?thesis
      by (subst scrape_loop.simps) (simp add: blocked_def navigated_def Let_def)
  next
    case False
    with NavOk assms(3) have "extract_detail_data (rendered (env trials)) c (cat_answer (env trials))
        (loc_answer (env trials)) (clock (env trials)) = None" "\<not> starting_bid (rendered (env trials))"
      by (simp_all add: attempt_fails_def)
    with NavOk False assms(1,2) show ?thesis
      by (subst scrape_loop.simps) (simp add: blocked_def navigated_def Let_def)
  qed
next
  case NavTimeout
  with assms(1,2) show ?thesis
    by (subst scrape_loop.simps) (simp add: navigated_def Let_def)
next
  case NavWebDriverError
  with assms(1,2) show ?thesis
    by (subst scrape_loop.simps) (simp add: navigated_def Let_def)
next
  case NavOtherError
  with assms(1,2) show ?thesis
    by (subst scrape_loop.simps) (simp add: navigated_def Let_def)
qed

lemma loop_ok:
  assumes "trials \<le> max_trials" "driver s" "\<not> attempt_fails c (env trials)"
  shows "scrape_loop env c trials s =
         (extract_detail_data (rendered (env trials)) c (cat_answer (env trials))
            (loc_answer (env trials)) (clock (env trials)), navigated s c)"
proof -
  from assms(3) have n: "nav (env trials) = NavOk" and b: "\<not> blocked (env trials)"
    and e: "extract_detail_data (rendered (env trials)) c (cat_answer (env trials))
        (loc_answer (env trials)) (clock (env trials)) \<noteq> None \<or> starting_bid (rendered (env trials))"
    by (simp_all add: attempt_fails_def)
  show ?thesis
  proof (cases "extract_detail_data (rendered (env trials)) c (cat_answer (env trials))
        (loc_answer (env trials)) (clock (env trials))")
    case None
    with e have "starting_bid (rendered (env trials))" by simp
    with None n b assms(1,2) show ?thesis
      by (subst scrape_loop.simps) (simp add: blocked_def navigated_def Let_def)
  next
    case (Some d)
    with n b assms(1,2) show ?thesis
      by (subst scrape_loop.simps) (simp add: blocked_def navigated_def Let_def)
  qed
qed

lemma reset_driver_fields:
  "navigations (reset_driver s r) = navigations s"
  "resets (reset_driver s r) = resets s + 1"
  by (cases r; simp add: reset_driver_def Let_def)+

lemma reset_driver_keeps: "driver s \<Longrightarrow> r \<noteq> DriverNotCreated \<Longrightarrow> driver (reset_driver s r)"
  by (cases r; simp add: reset_driver_def Let_def)

lemma navigated_fields:
  "navigations (navigated s c) = navigations s @ [cand_url c]"
  "resets (navigated s c) = resets s" "driver (navigated s c) = driver s"
  by (simp_all add: navigated_def)

lemma categorize_diner:
  "categorize_listing ''Restaurant'' (CatJson [''Restaurants'', ''Food'', ''Diners'']) = [''Restaurants'', ''Food'']"
  by (simp add: categorize_listing_def categories_def)

lemma extract_diner:
  "extract_detail_data diner_page cand_diner (CatJson [''Restaurants'', ''Food'', ''Diners''])
     (LocJson [(''state'', ''nevada''), (''city'', ''las vegas'')]) ''2025-01-01 08:00:00'' = Some diner_detail"
  by (simp add: extract_detail_data_def categorize_diner diner_page_def cand_diner_def diner_detail_def
      extract_location_def extract_broker_number_def extract_gross_revenue_def extract_cashflow_def
      get_or_def ai_extract_city_and_state_def dict_get_def Let_def)

lemma trials_bounds: "1 \<le> max_trials" "2 \<le> max_trials" "max_trials < 3" "max_trials < 2 + 1"
  by (simp_all add: max_trials_def)

lemma blocked_fails: "blocked a \<Longrightarrow> attempt_fails c a"
  by (simp add: attempt_fails_def)

lemma marker_missing_fails: "marker_missing a \<Longrightarrow> attempt_fails c a"
  by (simp add: attempt_fails_def marker_missing_def extract_detail_data_def extract_location_def Let_def)

text \<open>The loop from its first pass, case by case.\<close>

lemma loop_first_ok:
  assumes "driver s" "\<not> attempt_fails c (env 1)"
  shows "scrape_loop env c 1 s =
         (extract_detail_data (rendered (env 1)) c (cat_answer (env 1)) (loc_answer (env 1))
            (clock (env 1)), navigated s c)"
  using loop_ok [where trials = 1 and env = env, OF trials_bounds(1) assms] .

lemma loop_first_fails:
  assumes "driver s" "attempt_fails c (env 1)"
  shows "scrape_loop env c 1 s =
         scrape_loop env c 2 (reset_driver (navigated s c) (reset_result (env 1)))"
  using loop_fail [where trials = 1 and env = env, OF trials_bounds(1) assms]
  by (simp only: one_add_one)

lemma loop_second_ok:
  assumes "driver s" "\<not> attempt_fails c (env 2)"
  shows "scrape_loop env c 2 s =
         (extract_detail_data (rendered (env 2)) c (cat_answer (env 2)) (loc_answer (env 2))
            (clock (env 2)), navigated s c)"
  using loop_ok [where trials = 2 and env = env, OF trials_bounds(2) assms] .

lemma loop_second_fails:
  assumes "driver s" "attempt_fails c (env 2)"
  shows "scrape_loop env c 2 s = (None, reset_driver (navigated s c) (reset_result (env 2)))"
proof -
  have "scrape_loop env c 2 s =
        scrape_loop env c (2 + 1) (reset_driver (navigated s c) (reset_result (env 2)))"
    using loop_fail [where trials = 2 and env = env, OF trials_bounds(2) assms] .
  then show ?thesis
    by (simp only: loop_exhausted [OF trials_bounds(4)])
qed

lemma loop_second_navigations:
  "\<exists>k\<le>1. navigations (snd (scrape_loop env c 2 s)) = navigations s @ replicate k (cand_url c)"
proof (cases "driver s")
  case False
  then have "navigations (snd (scrape_loop env c 2 s)) = navigations s @ replicate 0 (cand_url c)"
    by (simp add: loop_no_driver)
  then show ?thesis by blast
next
  case True
  have "navigations (snd (scrape_loop env c 2 s)) = navigations s @ [cand_url c]"
  proof (cases "attempt_fails c (env 2)")
    case True
    with \<open>driver s\<close> show ?thesis
      by (simp only: loop_second_fails snd_conv reset_driver_fields navigated_fields)
  next
    case False
    from loop_second_ok [where env = env, OF \<open>driver s\<close> False] show ?thesis
      by (simp only: snd_conv navigated_fields)
  qed
  then show ?thesis
    by (intro exI [of _ 1]) simp
qed

lemma loop_first_navigations:
  "\<exists>k\<le>2. navigations (snd (scrape_loop env c 1 s)) = navigations s @ replicate k (cand_url c)"
proof (cases "driver s")
  case False
  then have "scrape_loop env c 1 s = (None, s)"
    by (rule loop_no_driver)
  then show ?thesis
    by (intro exI [of _ 0]) simp
next
  case True
  show ?thesis
  proof (cases "attempt_fails c (env 1)")
    case False
    from loop_first_ok [where env = env, OF True False]
    have "navigations (snd (scrape_loop env c 1 s)) = navigations s @ [cand_url c]"
      by (simp only: snd_conv navigated_fields)
    then show ?thesis
      by (intro exI [of _ 1]) simp
  next
    case fails: True
    let ?s2 = "reset_driver (navigated s c) (reset_result (env 1))"
    from loop_second_navigations [of env c ?s2]
    obtain k where k: "k \<le> 1" "navigations (snd (scrape_loop env c 2 ?s2)) =
        navigations ?s2 @ replicate k (cand_url c)"
      by blast
    have "scrape_loop env c 1 s = scrape_loop env c 2 ?s2"
      using True fails by (rule loop_first_fails)
    with k(2) have "navigations (snd (scrape_loop env c 1 s)) =
        (navigations s @ [cand_url c]) @ replicate k (cand_url c)"
      by (simp only: reset_driver_fields navigated_fields)
    then have "navigations (snd (scrape_loop env c 1 s)) = navigations s @ replicate (Suc k) (cand_url c)"
      by simp
    with k(1) show ?thesis
      by (intro exI [of _ "Suc k"]) simp
  qed
qed

lemma scrape_is_loop:
  "cand_url c \<noteq> [] \<Longrightarrow> cand_url c \<notin> recent \<Longrightarrow>
   scrape_listing_detail_selenium env recent c s = scrape_loop env c 1 s"
  by (simp add: scrape_listing_detail_selenium_def)

lemma loop_both_fail:
  assumes "attempt_fails c (env 1)" "attempt_fails c (env 2)"
  shows "fst (scrape_loop env c 1 s) = None"
proof (cases "driver s")
  case False
  then show ?thesis by (simp add: loop_no_driver)
next
  case True
  let ?s2 = "reset_driver (navigated s c) (reset_result (env 1))"
  have one: "scrape_loop env c 1 s = scrape_loop env c 2 ?s2"
    using True assms(1) by (rule loop_first_fails)
  show ?thesis
  proof (cases "driver ?s2")
    case False
    then have "scrape_loop env c 2 ?s2 = (None, ?s2)"
      by (rule loop_no_driver)
    with one show ?thesis by simp
  next
    case True
    from loop_second_fails [where env = env, OF True assms(2)] one show ?thesis
      by simp
  qed
qed

lemma reset_driver_eq:
  "reset_driver s r = s\<lparr>driver := driver s \<and> r \<noteq> DriverNotCreated, resets := resets s + 1\<rparr>"
  by (cases r; cases "driver s"; simp add: reset_driver_def Let_def)

lemma first_reset_state:
  "driver s \<Longrightarrow>
   reset_driver (navigated s c) r =
     s\<lparr>driver := r \<noteq> DriverNotCreated, navigations := navigations s @ [cand_url c],
       resets := resets s + 1\<rparr>"
  by (simp add: reset_driver_eq navigated_def)

lemma second_ok_state:
  "driver s \<Longrightarrow> r \<noteq> DriverNotCreated \<Longrightarrow>
   navigated (reset_driver (navigated s c) r) c =
     s\<lparr>navigations := navigations s @ [cand_url c, cand_url c], resets := resets s + 1\<rparr>"
  by (simp add: reset_driver_eq navigated_def)

lemma second_fails_state:
  "driver s \<Longrightarrow> r \<noteq> DriverNotCreated \<Longrightarrow>
   reset_driver (navigated (reset_driver (navigated s c) r) c) r' =
     s\<lparr>driver := r' \<noteq> DriverNotCreated,
       navigations := navigations s @ [cand_url c, cand_url c], resets := resets s + 2\<rparr>"
  by (simp add: reset_driver_eq navigated_def)

lemma loop_retry_ok:
  assumes "driver s" "attempt_fails c (env 1)" "reset_result (env 1) \<noteq> DriverNotCreated"
    "\<not> attempt_fails c (env 2)"
  shows "scrape_loop env c 1 s =
         (extract_detail_data (rendered (env 2)) c (cat_answer (env 2)) (loc_answer (env 2))
            (clock (env 2)),
          s\<lparr>navigations := navigations s @ [cand_url c, cand_url c], resets := resets s + 1\<rparr>)"
proof -
  let ?s2 = "reset_driver (navigated s c) (reset_result (env 1))"
  have one: "scrape_loop env c 1 s = scrape_loop env c 2 ?s2"
    using assms(1,2) by (rule loop_first_fails)
  from assms(1) have "driver (navigated s c)"
    by (simp only: navigated_fields)
  from this assms(3) have "driver ?s2"
    by (rule reset_driver_keeps)
  from this assms(4) have "scrape_loop env c 2 ?s2 =
      (extract_detail_data (rendered (env 2)) c (cat_answer (env 2)) (loc_answer (env 2))
         (clock (env 2)), navigated ?s2 c)"
    by (rule loop_second_ok)
  with one show ?thesis
    by (simp only: second_ok_state [OF assms(1,3)])
qed

lemma loop_retry_fails:
  assumes "driver s" "attempt_fails c (env 1)" "reset_result (env 1) \<noteq> DriverNotCreated"
    "attempt_fails c (env 2)"
  shows "scrape_loop env c 1 s =
         (None, s\<lparr>driver := reset_result (env 2) \<noteq> DriverNotCreated,
                  navigations := navigations s @ [cand_url c, cand_url c],
                  resets := resets s + 2\<rparr>)"
proof -
  let ?s2 = "reset_driver (navigated s c) (reset_result (env 1))"
  have one: "scrape_loop env c 1 s = scrape_loop env c 2 ?s2"
    using assms(1,2) by (rule loop_first_fails)
  from assms(1) have "driver (navigated s c)"
    by (simp only: navigated_fields)
  from this assms(3) have "driver ?s2"
    by (rule reset_driver_keeps)
  from this assms(4) have "scrape_loop env c 2 ?s2 =
      (None, reset_driver (navigated ?s2 c) (reset_result (env 2)))"
    by (rule loop_second_fails)
  with one show ?thesis
    by (simp only: second_fails_state [OF assms(1,3)])
qed

lemma loop_session_lost:
  assumes "driver s" "attempt_fails c (env 1)" "reset_result (env 1) = DriverNotCreated"
  shows "scrape_loop env c 1 s =
         (None, s\<lparr>driver := False, navigations := navigations s @ [cand_url c],
                  resets := resets s + 1\<rparr>)"
proof -
  let ?s2 = "reset_driver (navigated s c) (reset_result (env 1))"
  have one: "scrape_loop env c 1 s = scrape_loop env c 2 ?s2"
    using assms(1,2) by (rule loop_first_fails)
  have s2: "?s2 = s\<lparr>driver := False, navigations := navigations s @ [cand_url c],
      resets := resets s + 1\<rparr>"
    by (simp only: first_reset_state [OF assms(1)] assms(3)) simp
  then have "\<not> driver ?s2"
    by simp
  then have "scrape_loop env c 2 ?s2 = (None, ?s2)"
    by (rule loop_no_driver)
  with one s2 show ?thesis
    by simp
qed

text \<open>
  C3, amended: a candidate that is scraped (non-empty url, not scraped before) is
  navigated to at most \<open>max_trials = 2\<close> times, always at its own url. An attempt that
  detects the access-denied signature, or whose content marker is absent with no
  auction marker recognized, fails. A reset counts one reset and leaves a driver exactly
  when there was one and the creation of the new one did not fail. When the first
  attempt, with a driver, fails, the session is reset; if the reset leaves a driver, the
  same candidate is navigated to a second time, and the result is the outcome of the
  second attempt (its record, or no record after a second reset); if the reset leaves
  no driver, the candidate is dropped after the one navigation. When both attempts
  fail, the result is \<open>None\<close>: no record.
\<close>

theorem C3_retry_while_driver:
  assumes "cand_url c \<noteq> []" and "cand_url c \<notin> recent"
  shows "max_trials = 2 \<and>
    (\<exists>k\<le>max_trials. navigations (snd (scrape_listing_detail_selenium env recent c s)) =
        navigations s @ replicate k (cand_url c)) \<and>
    (blocked a \<or> marker_missing a \<longrightarrow> attempt_fails c a) \<and>
    reset_driver s r =
      s\<lparr>driver := driver s \<and> r \<noteq> DriverNotCreated, resets := resets s + 1\<rparr> \<and>
    (driver s \<and> attempt_fails c (env 1) \<longrightarrow>
       (reset_result (env 1) \<noteq> DriverNotCreated \<longrightarrow>
          (\<not> attempt_fails c (env 2) \<longrightarrow>
             scrape_listing_detail_selenium env recent c s =
               (extract_detail_data (rendered (env 2)) c (cat_answer (env 2)) (loc_answer (env 2))
                  (clock (env 2)),
                s\<lparr>navigations := navigations s @ [cand_url c, cand_url c],
                  resets := resets s + 1\<rparr>)) \<and>
          (attempt_fails c (env 2) \<longrightarrow>
             scrape_listing_detail_selenium env recent c s =
               (None, s\<lparr>driver := reset_result (env 2) \<noteq> DriverNotCreated,
                        navigations := navigations s @ [cand_url c, cand_url c],
                        resets := resets s + 2\<rparr>))) \<and>
       (reset_result (env 1) = DriverNotCreated \<longrightarrow>
          scrape_listing_detail_selenium env recent c s =
            (None, s\<lparr>driver := False, navigations := navigations s @ [cand_url c],
                     resets := resets s + 1\<rparr>))) \<and>
    (attempt_fails c (env 1) \<and> attempt_fails c (env 2) \<longrightarrow>
       fst (scrape_listing_detail_selenium env recent c s) = None)"
proof -
  note run = scrape_is_loop [OF assms, of env s]
  have p1: "max_trials = 2"
    by (simp add: max_trials_def)
  have p2: "\<exists>k\<le>max_trials. navigations (snd (scrape_listing_detail_selenium env recent c s)) =
        navigations s @ replicate k (cand_url c)"
    using loop_first_navigations [of env c s] by (simp only: run p1)
  have p3: "blocked a \<or> marker_missing a \<longrightarrow> attempt_fails c a"
    using blocked_fails [of a c] marker_missing_fails [of a c] by blast
  have p4: "reset_driver s r =
      s\<lparr>driver := driver s \<and> r \<noteq> DriverNotCreated, resets := resets s + 1\<rparr>"
    by (rule reset_driver_eq)
  have p5: "driver s \<and> attempt_fails c (env 1) \<longrightarrow>
       (reset_result (env 1) \<noteq> DriverNotCreated \<longrightarrow>
          (\<not> attempt_fails c (env 2) \<longrightarrow>
             scrape_listing_detail_selenium env recent c s =
               (extract_detail_data (rendered (env 2)) c (cat_answer (env 2)) (loc_answer (env 2))
                  (clock (env 2)),
                s\<lparr>navigations := navigations s @ [cand_url c, cand_url c],
                  resets := resets s + 1\<rparr>)) \<and>
          (attempt_fails c (env 2) \<longrightarrow>
             scrape_listing_detail_selenium env recent c s =
               (None, s\<lparr>driver := reset_result (env 2) \<noteq> DriverNotCreated,
                        navigations := navigations s @ [cand_url c, cand_url c],
                        resets := resets s + 2\<rparr>))) \<and>
       (reset_result (env 1) = DriverNotCreated \<longrightarrow>
          scrape_listing_detail_selenium env recent c s =
            (None, s\<lparr>driver := False, navigations := navigations s @ [cand_url c],
                     resets := resets s + 1\<rparr>))"
  proof (intro impI conjI)
    assume h: "driver s \<and> attempt_fails c (env 1)"
      and g: "reset_result (env 1) \<noteq> DriverNotCreated" and ok: "\<not> attempt_fails c (env 2)"
    from h have d: "driver s" and f: "attempt_fails c (env 1)"
      by simp_all
    from loop_retry_ok [where env = env, OF d f g ok]
    show "scrape_listing_detail_selenium env recent c s =
               (extract_detail_data (rendered (env 2)) c (cat_answer (env 2)) (loc_answer (env 2))
                  (clock (env 2)),
                s\<lparr>navigations := navigations s @ [cand_url c, cand_url c],
                  resets := resets s + 1\<rparr>)"
      by (simp only: run)
  next
    assume h: "driver s \<and> attempt_fails c (env 1)"
      and g: "reset_result (env 1) \<noteq> DriverNotCreated" and ko: "attempt_fails c (env 2)"
    from h have d: "driver s" and f: "attempt_fails c (env 1)"
      by simp_all
    from loop_retry_fails [where env = env, OF d f g ko]
    show "scrape_listing_detail_selenium env recent c s =
               (None, s\<lparr>driver := reset_result (env 2) \<noteq> DriverNotCreated,
                        navigations := navigations s @ [cand_url c, cand_url c],
                        resets := resets s + 2\<rparr>)"
      by (simp only: run)
  next
    assume h: "driver s \<and> attempt_fails c (env 1)"
      and g: "reset_result (env 1) = DriverNotCreated"
    from h have d: "driver s" and f: "attempt_fails c (env 1)"
      by simp_all
    from loop_session_lost [where env = env, OF d f g]
    show "scrape_listing_detail_selenium env recent c s =
            (None, s\<lparr>driver := False, navigations := navigations s @ [cand_url c],
                     resets := resets s + 1\<rparr>)"
      by (simp only: run)
  qed
  have p6: "attempt_fails c (env 1) \<and> attempt_fails c (env 2) \<longrightarrow>
       fst (scrape_listing_detail_selenium env recent c s) = None"
  proof
    assume "attempt_fails c (env 1) \<and> attempt_fails c (env 2)"
    then show "fst (scrape_listing_detail_selenium env recent c s) = None"
      using loop_both_fail [of c env s] by (simp only: run)
  qed
  from p1 p2 p3 p4 p5 p6 show ?thesis
    by (intro conjI)
qed

lemma diner_attempt_ok: "\<not> attempt_fails cand_diner diner_attempt"
  using extract_diner by (simp add: attempt_fails_def blocked_def diner_attempt_def diner_page_def)

lemma blocked_attempt_blocked: "blocked blocked_attempt" "nav blocked_attempt = NavOk"
  "reset_result blocked_attempt = DriverCreated"
  by (simp_all add: blocked_def blocked_attempt_def diner_attempt_def)

lemma diner_url: "cand_url cand_diner = ''https://site/diner''"
  by (simp add: cand_diner_def)

lemma env_lost_fields:
  "blocked (env_lost 1)" "nav (env_lost 1) = NavOk" "reset_result (env_lost 1) = DriverNotCreated"
  "env_lost 2 = diner_attempt"
  by (simp_all add: env_lost_def blocked_def blocked_attempt_def diner_attempt_def)

text \<open>
  The first pass meets the access-denied page, the reset gives a new driver, the second
  pass extracts the record: two navigations to the same url, one reset.
\<close>

theorem C3_retry_while_driver_witness:
  "cand_url cand_diner \<noteq> [] \<and> cand_url cand_diner \<notin> {} \<and> driver fresh_scraper \<and>
   nav (env_retry 1) = NavOk \<and> blocked (env_retry 1) \<and> attempt_fails cand_diner (env_retry 1) \<and>
   reset_result (env_retry 1) \<noteq> DriverNotCreated \<and> \<not> attempt_fails cand_diner (env_retry 2) \<and>
   scrape_listing_detail_selenium env_retry {} cand_diner fresh_scraper =
     (Some diner_detail,
      \<lparr>driver = True, navigations = [''https://site/diner'', ''https://site/diner''], resets = 1\<rparr>)"
proof -
  have e1: "env_retry 1 = blocked_attempt" and e2: "env_retry 2 = diner_attempt"
    by (simp_all add: env_retry_def)
  have h1: "cand_url cand_diner \<noteq> []" and h2: "cand_url cand_diner \<notin> {}"
    by (simp_all add: diner_url)
  have h3: "driver fresh_scraper"
    by (simp add: fresh_scraper_def)
  have h4: "nav (env_retry 1) = NavOk" and h5: "blocked (env_retry 1)"
    by (simp_all only: e1 blocked_attempt_blocked)
  have h6: "reset_result (env_retry 1) \<noteq> DriverNotCreated"
    by (simp only: e1 blocked_attempt_blocked) simp
  have h7: "\<not> attempt_fails cand_diner (env_retry 2)"
    by (simp only: e2 diner_attempt_ok not_False_eq_True)
  note c3 = C3_retry_while_driver [OF h1 h2, where env = env_retry and s = fresh_scraper
      and a = "env_retry 1"]
  from h5 have "blocked (env_retry 1) \<or> marker_missing (env_retry 1)"
    by simp
  with c3 [THEN conjunct2, THEN conjunct2, THEN conjunct1]
  have h8: "attempt_fails cand_diner (env_retry 1)"
    by (rule mp)
  from h3 h8 have a: "driver fresh_scraper \<and> attempt_fails cand_diner (env_retry 1)"
    by simp
  note r = c3 [THEN conjunct2, THEN conjunct2, THEN conjunct2, THEN conjunct2, THEN conjunct1,
      THEN mp, OF a, THEN conjunct1, THEN mp, OF h6, THEN conjunct1, THEN mp, OF h7]
  have x: "extract_detail_data (rendered (env_retry 2)) cand_diner (cat_answer (env_retry 2))
      (loc_answer (env_retry 2)) (clock (env_retry 2)) = Some diner_detail"
    by (simp only: e2) (simp add: extract_diner diner_attempt_def)
  have n: "fresh_scraper\<lparr>navigations := navigations fresh_scraper @ [cand_url cand_diner, cand_url cand_diner],
      resets := resets fresh_scraper + 1\<rparr> =
      \<lparr>driver = True, navigations = [''https://site/diner'', ''https://site/diner''], resets = 1\<rparr>"
    by (simp add: fresh_scraper_def diner_url)
  from r have "scrape_listing_detail_selenium env_retry {} cand_diner fresh_scraper =
     (Some diner_detail,
      \<lparr>driver = True, navigations = [''https://site/diner'', ''https://site/diner''], resets = 1\<rparr>)"
    by (simp only: x n)
  with h1 h2 h3 h4 h5 h8 h6 h7 show ?thesis
    by (intro conjI)
qed

text \<open>
  C3, as stated, fails when the reset creates no driver: the first pass meets the
  access-denied page, the reset leaves the scraper without a driver, and the candidate
  is dropped after one navigation, fewer than \<open>max_trials\<close>, although the second pass
  would have met the page of the listing.
\<close>

theorem C3_counterexample:
  "cand_url cand_diner \<noteq> [] \<and> cand_url cand_diner \<notin> {} \<and> driver fresh_scraper \<and>
   nav (env_lost 1) = NavOk \<and> blocked (env_lost 1) \<and>
   \<not> attempt_fails cand_diner (env_lost 2) \<and>
   scrape_listing_detail_selenium env_lost {} cand_diner fresh_scraper =
     (None, \<lparr>driver = False, navigations = [''https://site/diner''], resets = 1\<rparr>) \<and>
   length (navigations (snd (scrape_listing_detail_selenium env_lost {} cand_diner fresh_scraper)))
     < max_trials"
proof -
  have h1: "cand_url cand_diner \<noteq> []" and h2: "cand_url cand_diner \<notin> {}"
    by (simp_all add: diner_url)
  have h3: "driver fresh_scraper"
    by (simp add: fresh_scraper_def)
  note h4 = env_lost_fields(2) and h5 = env_lost_fields(1)
  have h6: "\<not> attempt_fails cand_diner (env_lost 2)"
    by (simp only: env_lost_fields(4) diner_attempt_ok not_False_eq_True)
  have f: "attempt_fails cand_diner (env_lost 1)"
    using h5 by (rule blocked_fails)
  have "scrape_listing_detail_selenium env_lost {} cand_diner fresh_scraper =
      scrape_loop env_lost cand_diner 1 fresh_scraper"
    using h1 h2 by (rule scrape_is_loop)
  also have "\<dots> = (None, fresh_scraper\<lparr>driver := False,
      navigations := navigations fresh_scraper @ [cand_url cand_diner],
      resets := resets fresh_scraper + 1\<rparr>)"
    using h3 f env_lost_fields(3) by (rule loop_session_lost [where env = env_lost])
  also have "\<dots> = (None, \<lparr>driver = False, navigations = [''https://site/diner''], resets = 1\<rparr>)"
    by (simp add: fresh_scraper_def diner_url)
  finally have run: "scrape_listing_detail_selenium env_lost {} cand_diner fresh_scraper =
      (None, \<lparr>driver = False, navigations = [''https://site/diner''], resets = 1\<rparr>)" .
  have few: "length (navigations (snd (scrape_listing_detail_selenium env_lost {} cand_diner fresh_scraper)))
     < max_trials"
    by (simp only: run) (simp add: max_trials_def)
  from h1 h2 h3 h4 h5 h6 run few show ?thesis
    by (intro conjI)
qed

subsection \<open>Acceptance and enrichment\<close>

lemma extract_accepts_iff:
  "extract_detail_data p c cr lr t \<noteq> None \<longleftrightarrow>
   (jd_asking_price (json_data p) \<noteq> None \<and> jd_asking_price (json_data p) \<noteq> Some 0) \<and>
   extract_location p \<noteq> [] \<and> lr \<noteq> LocNotJson"
  by (cases lr) (simp_all add: extract_detail_data_def ai_extract_city_and_state_def Let_def)

lemma categorize_listing_valid:
  "set (categorize_listing raw r) \<subseteq> set categories \<union> {raw}"
  by (cases r) (auto simp add: categorize_listing_def Let_def)

lemma not_json_attempt_fields:
  "nav not_json_attempt = NavOk" "rendered not_json_attempt = diner_page"
  "loc_answer not_json_attempt = LocNotJson" "reset_result not_json_attempt = DriverCreated"
  by (simp_all add: not_json_attempt_def diner_attempt_def)

lemma not_json_attempt_fails: "attempt_fails cand_diner not_json_attempt"
proof -
  have "extract_detail_data (rendered not_json_attempt) cand_diner (cat_answer not_json_attempt)
      (loc_answer not_json_attempt) (clock not_json_attempt) = None"
    using extract_accepts_iff [of "rendered not_json_attempt" cand_diner "cat_answer not_json_attempt"
        "loc_answer not_json_attempt" "clock not_json_attempt"]
    by (simp add: not_json_attempt_fields)
  moreover have "\<not> starting_bid (rendered not_json_attempt)"
    by (simp add: not_json_attempt_fields diner_page_def)
  ultimately show ?thesis
    by (simp add: attempt_fails_def)
qed

text \<open>
  C5 at the failing input: the page has the asking price and the location and no
  auction marker, the classification service answers the location request with a text
  that is not JSON, and the scrape returns no record after two attempts and two resets
  (\<open>extract_accepts_iff\<close> above is the rule the code follows).
\<close>

theorem C5_price_and_location_present_yet_rejected:
  "jd_asking_price (json_data diner_page) = Some 500000 \<and>
   extract_location diner_page = ''Las Vegas, NV'' \<and> \<not> starting_bid diner_page \<and>
   rendered not_json_attempt = diner_page \<and>
   scrape_listing_detail_selenium (\<lambda>t. not_json_attempt) {} cand_diner fresh_scraper =
     (None,
      \<lparr>driver = True, navigations = [''https://site/diner'', ''https://site/diner''], resets = 2\<rparr>)"
proof -
  let ?env = "\<lambda>t::nat. not_json_attempt"
  let ?s2 = "reset_driver (navigated fresh_scraper cand_diner) (reset_result (?env 1))"
  have s2: "?s2 = \<lparr>driver = True, navigations = [''https://site/diner''], resets = 1\<rparr>"
    by (simp add: not_json_attempt_fields navigated_def reset_driver_def fresh_scraper_def diner_url)
  have d: "driver fresh_scraper"
    by (simp add: fresh_scraper_def)
  have d2: "driver ?s2"
    by (simp only: s2) simp
  have one: "scrape_loop ?env cand_diner 1 fresh_scraper = scrape_loop ?env cand_diner 2 ?s2"
    using d not_json_attempt_fails by (rule loop_first_fails [where env = ?env])
  have two: "scrape_loop ?env cand_diner 2 ?s2 =
      (None, reset_driver (navigated ?s2 cand_diner) (reset_result (?env 2)))"
    using d2 not_json_attempt_fails by (rule loop_second_fails [where env = ?env])
  have s3: "reset_driver (navigated ?s2 cand_diner) (reset_result (?env 2)) =
      \<lparr>driver = True, navigations = [''https://site/diner'', ''https://site/diner''], resets = 2\<rparr>"
    by (simp only: s2) (simp add: not_json_attempt_fields navigated_def reset_driver_def diner_url)
  have "scrape_listing_detail_selenium ?env {} cand_diner fresh_scraper =
      scrape_loop ?env cand_diner 1 fresh_scraper"
    by (rule scrape_is_loop) (simp_all add: diner_url)
  with one two s3 have run: "scrape_listing_detail_selenium ?env {} cand_diner fresh_scraper =
     (None,
      \<lparr>driver = True, navigations = [''https://site/diner'', ''https://site/diner''], resets = 2\<rparr>)"
    by simp
  have "jd_asking_price (json_data diner_page) = Some 500000"
    "extract_location diner_page = ''Las Vegas, NV''" "\<not> starting_bid diner_page"
    by (simp_all add: diner_page_def extract_location_def)
  with run not_json_attempt_fields(2) show ?thesis
    by (intro conjI)
qed

text \<open>
  C6 at the failing input: when the location request raises, the city and the state
  fall back to the empty string and the record is built; when the answer is not JSON,
  \<open>ai_extract_city_and_state\<close> returns \<open>None\<close> and the record is rejected.
\<close>

theorem C6_not_json_location_rejects_record:
  "ai_extract_city_and_state LocRaised = Some [] \<and>
   ai_extract_city_and_state LocNotJson = None \<and>
   extract_detail_data diner_page cand_diner CatRaised LocRaised ''2025-01-01 08:00:00'' =
     Some (diner_detail\<lparr>city := [], state := [], category := [''Restaurant'']\<rparr>) \<and>
   extract_detail_data diner_page cand_diner CatRaised LocNotJson ''2025-01-01 08:00:00'' = None"
  by (simp add: extract_detail_data_def categorize_listing_def diner_page_def cand_diner_def
      diner_detail_def extract_location_def extract_broker_number_def extract_gross_revenue_def
      extract_cashflow_def get_or_def ai_extract_city_and_state_def dict_get_def Let_def)

subsection \<open>Worker pool\<close>

lemma all_details_empty_iff:
  "concat (map (\<lambda>r. case r of None \<Rightarrow> [] | Some d \<Rightarrow> [d]) rs) = [] \<longleftrightarrow> (\<forall>r\<in>set rs. r = None)"
proof (induction rs)
  case Nil
  show ?case by simp
next
  case (Cons r rs)
  then show ?case by (cases r) simp_all
qed

lemma process_threaded_unfold:
  assumes "scrape_all envs 0 cands s = (results, s')"
    and "ad = concat (map (\<lambda>r. case r of None \<Rightarrow> [] | Some d \<Rightarrow> [d]) results)"
  shows "process_urls_threaded envs cands s col =
         (if ad = [] then (IntResult 0, s', col)
          else case save_details_to_mongo col ad of (new_count, col') \<Rightarrow> (Details ad, s', col'))"
  by (simp only: process_urls_threaded_def assms prod.case Let_def)

lemma process_result_cases:
  assumes "scrape_all envs 0 cands s = (results, s')"
  shows "fst (process_urls_directly envs cands s col) =
         (if \<forall>r\<in>set results. r = None then IntResult 0
          else Details (concat (map (\<lambda>r. case r of None \<Rightarrow> [] | Some d \<Rightarrow> [d]) results)))"
proof -
  define ad where "ad = concat (map (\<lambda>r. case r of None \<Rightarrow> [] | Some d \<Rightarrow> [d]) results)"
  have e: "(ad = []) = (\<forall>r\<in>set results. r = None)"
    by (simp only: ad_def all_details_empty_iff)
  obtain n col' where sv: "save_details_to_mongo col ad = (n, col')"
    by (cases "save_details_to_mongo col ad")
  have "fst (process_urls_threaded envs cands s col) = (if ad = [] then IntResult 0 else Details ad)"
    by (simp only: process_threaded_unfold [OF assms ad_def] sv prod.case fst_conv if_distrib [of fst])
  then have "fst (process_urls_directly envs cands s col) =
      (if \<forall>r\<in>set results. r = None then IntResult 0 else Details ad)"
    by (simp only: process_urls_directly_def e)
  then show ?thesis
    by (simp only: ad_def)
qed

text \<open>
  C9: the result of \<open>process_urls_directly\<close> is the integer 0 or a non-empty list of
  records, never the empty list; it is 0 exactly when every candidate yields \<open>None\<close>.
\<close>

theorem C9_zero_instead_of_empty_list:
  "(fst (process_urls_directly envs cands s col) = IntResult 0 \<or>
    (\<exists>ds. ds \<noteq> [] \<and> fst (process_urls_directly envs cands s col) = Details ds)) \<and>
   (fst (process_urls_directly envs cands s col) = IntResult 0 \<longleftrightarrow>
      (\<forall>r\<in>set (fst (scrape_all envs 0 cands s)). r = None)) \<and>
   fst (process_urls_directly envs cands s col) \<noteq> Details []"
proof -
  obtain results s' where sa: "scrape_all envs 0 cands s = (results, s')"
    by (cases "scrape_all envs 0 cands s")
  note pr = process_result_cases [OF sa, of col]
  show ?thesis
  proof (cases "\<forall>r\<in>set results. r = None")
    case True
    with pr sa show ?thesis by simp
  next
    case False
    then have ne: "concat (map (\<lambda>r. case r of None \<Rightarrow> [] | Some d \<Rightarrow> [d]) results) \<noteq> []"
      by (simp only: all_details_empty_iff not_False_eq_True)
    from False pr have eq: "fst (process_urls_directly envs cands s col) =
        Details (concat (map (\<lambda>r. case r of None \<Rightarrow> [] | Some d \<Rightarrow> [d]) results))"
      by simp
    have a: "\<exists>ds. ds \<noteq> [] \<and> fst (process_urls_directly envs cands s col) = Details ds"
      using ne eq by blast
    have b: "fst (process_urls_directly envs cands s col) \<noteq> IntResult 0"
      by (simp only: eq) simp
    have c: "fst (process_urls_directly envs cands s col) \<noteq> Details []"
      using ne by (simp only: eq) simp
    from a b c False sa show ?thesis by simp
  qed
qed

text \<open>
  One candidate that yields no record: the result is the integer 0.
\<close>

theorem C9_zero_instead_of_empty_list_witness:
  "fst (scrape_all (\<lambda>i t. not_json_attempt) 0 [cand_diner] fresh_scraper) = [None] \<and>
   fst (process_urls_directly (\<lambda>i t. not_json_attempt) [cand_diner] fresh_scraper store_empty) =
     IntResult 0"
proof -
  have "scrape_listing_detail_selenium (\<lambda>t. not_json_attempt) {} cand_diner fresh_scraper =
      scrape_loop (\<lambda>t. not_json_attempt) cand_diner 1 fresh_scraper"
    by (rule scrape_is_loop) (simp_all add: diner_url)
  moreover have "fst (scrape_loop (\<lambda>t. not_json_attempt) cand_diner 1 fresh_scraper) = None"
    by (rule loop_both_fail [where env = "\<lambda>t. not_json_attempt"]) (rule not_json_attempt_fails)+
  ultimately have "fst (scrape_listing_detail_selenium (\<lambda>t. not_json_attempt) {} cand_diner fresh_scraper) = None"
    by simp
  then have r: "fst (scrape_all (\<lambda>i t. not_json_attempt) 0 [cand_diner] fresh_scraper) = [None]"
    by (simp add: case_prod_unfold)
  then have h: "\<forall>r\<in>set (fst (scrape_all (\<lambda>i t. not_json_attempt) 0 [cand_diner] fresh_scraper)). r = None"
    by simp
  note c9 = C9_zero_instead_of_empty_list [of "\<lambda>i t. not_json_attempt" "[cand_diner]" fresh_scraper store_empty]
  from c9 [THEN conjunct2, THEN conjunct1] h
  have "fst (process_urls_directly (\<lambda>i t. not_json_attempt) [cand_diner] fresh_scraper store_empty) =
     IntResult 0"
    by (rule iffD2)
  with r show ?thesis
    by (intro conjI)
qed

section \<open>Notification engine\<close>


lemma matches_unfold:
  "listing_matches_subscriber l mn mx i s c \<longleftrightarrow>
     \<not> ((mn \<noteq> None \<and> asking_price l \<noteq> None) \<and> the (asking_price l) < the mn) \<and>
     \<not> ((mx \<noteq> None \<and> asking_price l \<noteq> None) \<and> the (asking_price l) > the mx) \<and>
     \<not> (i \<noteq> {} \<and> i \<inter> set (map (\<lambda>cat. strip (lower cat)) (filter (\<lambda>cat. cat \<noteq> []) (category l))) = {}) \<and>
     \<not> (s \<noteq> {} \<and> s \<inter> set_of_str (lower (state l)) = {}) \<and>
     \<not> (c \<noteq> {} \<and> c \<inter> set_of_str (lower (city l)) = {})"
  unfolding listing_matches_subscriber_def normalize_price_def Let_def
  by (simp only: if_bool_eq_conj simp_thms) blast




subsection \<open>Skipped subscribers\<close>

lemma match_step_skipped: "skipped sub \<Longrightarrow> match_step listings matches sub = matches"
  by (cases "merge_fields sub") (auto simp add: match_step_def skipped_def)

lemma match_drop_skipped:
  assumes "skipped sub"
  shows "match_subscribers_to_listings (pre @ sub # post) listings =
         match_subscribers_to_listings (pre @ post) listings"
  by (simp add: match_subscribers_to_listings_def match_step_skipped [OF assms])

lemma dict_set_keys: "fst ` set (dict_set m k v) = insert k (fst ` set m)"
proof (induction m)
  case Nil
  show ?case by simp
next
  case (Cons a m)
  then show ?case by (cases a) (simp add: insert_commute)
qed

lemma match_step_keys:
  "fst ` set (match_step listings matches sub) \<subseteq>
   fst ` set matches \<union> {e. \<not> skipped sub \<and> email_address sub = Some e}"
proof (cases "skipped sub")
  case True
  then show ?thesis by (simp add: match_step_skipped)
next
  case False
  then obtain e mf where e: "email_address sub = Some e" and mf: "merge_fields sub = Some mf"
    by (cases "email_address sub"; cases "merge_fields sub") (simp_all add: skipped_def)
  from False e mf show ?thesis
    by (auto simp add: match_step_def Let_def dict_set_keys)
qed

lemma match_fold_keys:
  "fst ` set (foldl (match_step listings) matches subs) \<subseteq>
   fst ` set matches \<union> {e. \<exists>s\<in>set subs. \<not> skipped s \<and> email_address s = Some e}"
proof (induction subs arbitrary: matches)
  case Nil
  show ?case by simp
next
  case (Cons sub subs)
  have "fst ` set (foldl (match_step listings) (match_step listings matches sub) subs) \<subseteq>
      fst ` set (match_step listings matches sub) \<union>
      {e. \<exists>s\<in>set subs. \<not> skipped s \<and> email_address s = Some e}"
    by (rule Cons.IH)
  moreover have "{e. \<exists>s\<in>set (sub # subs). \<not> skipped s \<and> email_address s = Some e} =
      {e. \<not> skipped sub \<and> email_address sub = Some e} \<union>
      {e. \<exists>s\<in>set subs. \<not> skipped s \<and> email_address s = Some e}"
    by auto
  moreover note match_step_keys [of listings matches sub]
  ultimately have "fst ` set (foldl (match_step listings) (match_step listings matches sub) subs) \<subseteq>
      fst ` set matches \<union> {e. \<exists>s\<in>set (sub # subs). \<not> skipped s \<and> email_address s = Some e}"
    by blast
  then show ?case by simp
qed

lemma match_keys:
  "fst ` set (match_subscribers_to_listings subs listings) \<subseteq>
   {e. \<exists>s\<in>set subs. \<not> skipped s \<and> email_address s = Some e}"
  using match_fold_keys [of listings "[]" subs] by (simp add: match_subscribers_to_listings_def)

lemma group_step_members:
  "group_members (group_step gs em) \<subseteq> insert (fst em) (group_members gs)"
  by (cases em) (auto simp add: group_step_def group_members_def Let_def split: if_splits)

lemma group_fold_members:
  "group_members (foldl group_step gs ms) \<subseteq> group_members gs \<union> fst ` set ms"
proof (induction ms arbitrary: gs)
  case Nil
  show ?case by simp
next
  case (Cons m ms)
  have "group_members (foldl group_step (group_step gs m) ms) \<subseteq>
      group_members (group_step gs m) \<union> fst ` set ms"
    by (rule Cons.IH)
  with group_step_members [of gs m] show ?case
    by auto
qed

lemma group_members_matches:
  "group_members (group_subscribers_by_matches matches) \<subseteq> fst ` set matches"
  using group_fold_members [of "[]" matches]
  by (simp add: group_subscribers_by_matches_def group_members_def)

lemma dispatch_step_recipients:
  "recipients (snd (snd (dispatch_step p acc g))) \<subseteq>
   recipients (snd (snd acc)) \<union> set (fst (snd g))"
  by (cases acc; cases g) (auto simp add: dispatch_step_def recipients_def)

lemma dispatch_fold_recipients:
  "recipients (snd (snd (foldl (dispatch_step p) acc gs))) \<subseteq>
   recipients (snd (snd acc)) \<union> group_members gs"
proof (induction gs arbitrary: acc)
  case Nil
  show ?case by simp
next
  case (Cons g gs)
  have "recipients (snd (snd (foldl (dispatch_step p) (dispatch_step p acc g) gs))) \<subseteq>
      recipients (snd (snd (dispatch_step p acc g))) \<union> group_members gs"
    by (rule Cons.IH)
  with dispatch_step_recipients [of p acc g] show ?case
    by (auto simp add: group_members_def)
qed

lemma notify_recipients:
  "recipients (campaigns_of (notify p subs listings)) \<subseteq>
   group_members (group_subscribers_by_matches (match_subscribers_to_listings subs listings))"
proof (cases "api_key p = [] \<or> list_id p = [] \<or> match_subscribers_to_listings subs listings = []")
  case True
  then show ?thesis by (auto simp add: notify_def recipients_def campaigns_of_def)
next
  case False
  from dispatch_fold_recipients [of p "(0, 0, [])"
      "group_subscribers_by_matches (match_subscribers_to_listings subs listings)"]
  have "recipients (snd (snd (foldl (dispatch_step p) (0, 0, [])
      (group_subscribers_by_matches (match_subscribers_to_listings subs listings))))) \<subseteq>
      group_members (group_subscribers_by_matches (match_subscribers_to_listings subs listings))"
    by (simp add: recipients_def)
  with False show ?thesis
    by (simp add: notify_def campaigns_of_def Let_def case_prod_unfold)
qed

lemma no_constraints_match: "listing_matches_subscriber l None None {} {} {}"
  by (simp only: matches_unfold) simp

lemma empty_fields_match_all:
  "empty_merge_fields mf \<Longrightarrow> matched_listings mf listings = listings"
  by (simp add: matched_listings_def empty_merge_fields_def normalize_list_field_def no_constraints_match)

text \<open>
  C10: a subscriber with no e-mail address or with no or empty merge fields is skipped:
  the matches, and so the groups, the campaigns and the summary, are those of the list
  without the subscriber, and when no other subscriber that is not skipped has the
  address, it is in no match, no group and no campaign; yet the matching rule with no
  constraint accepts every listing, so the empty merge fields would match the whole
  batch.
\<close>

theorem C10_skipped_subscriber:
  assumes "skipped sub"
  shows "match_subscribers_to_listings (pre @ sub # post) listings =
           match_subscribers_to_listings (pre @ post) listings \<and>
         notify p (pre @ sub # post) listings = notify p (pre @ post) listings \<and>
         (\<forall>e. email_address sub = Some e \<and>
              (\<forall>s\<in>set (pre @ post). email_address s = Some e \<longrightarrow> skipped s) \<longrightarrow>
              e \<notin> fst ` set (match_subscribers_to_listings (pre @ sub # post) listings) \<and>
              e \<notin> group_members (group_subscribers_by_matches
                     (match_subscribers_to_listings (pre @ sub # post) listings)) \<and>
              e \<notin> recipients (campaigns_of (notify p (pre @ sub # post) listings))) \<and>
         (\<forall>l. listing_matches_subscriber l None None {} {} {}) \<and>
         (\<forall>mf. merge_fields sub = Some mf \<and> empty_merge_fields mf \<longrightarrow>
               matched_listings mf listings = listings)"
proof -
  let ?subs = "pre @ sub # post"
  let ?m = "match_subscribers_to_listings ?subs listings"
  have a: "?m = match_subscribers_to_listings (pre @ post) listings"
    using assms by (rule match_drop_skipped)
  have b: "notify p ?subs listings = notify p (pre @ post) listings"
    by (simp only: notify_def a)
  have c: "e \<notin> fst ` set ?m \<and> e \<notin> group_members (group_subscribers_by_matches ?m) \<and>
      e \<notin> recipients (campaigns_of (notify p ?subs listings))"
    if h: "email_address sub = Some e \<and>
        (\<forall>s\<in>set (pre @ post). email_address s = Some e \<longrightarrow> skipped s)" for e
  proof -
    from h have "e \<notin> {e. \<exists>s\<in>set (pre @ post). \<not> skipped s \<and> email_address s = Some e}"
      by blast
    with match_keys [of "pre @ post" listings] have k: "e \<notin> fst ` set ?m"
      unfolding a by blast
    with group_members_matches [of ?m] have g: "e \<notin> group_members (group_subscribers_by_matches ?m)"
      by blast
    with notify_recipients [of p ?subs listings] have "e \<notin> recipients (campaigns_of (notify p ?subs listings))"
      by blast
    with k g show ?thesis by (intro conjI)
  qed
  have d: "\<forall>l. listing_matches_subscriber l None None {} {} {}"
    using no_constraints_match by (rule allI)
  have e: "\<forall>mf. merge_fields sub = Some mf \<and> empty_merge_fields mf \<longrightarrow>
      matched_listings mf listings = listings"
    using empty_fields_match_all by blast
  from c have c': "\<forall>e. email_address sub = Some e \<and>
              (\<forall>s\<in>set (pre @ post). email_address s = Some e \<longrightarrow> skipped s) \<longrightarrow>
              e \<notin> fst ` set ?m \<and> e \<notin> group_members (group_subscribers_by_matches ?m) \<and>
              e \<notin> recipients (campaigns_of (notify p ?subs listings))"
    by (intro allI impI)
  from a b c' d e show ?thesis
    by (intro conjI)
qed

lemma match_example: "match_subscribers_to_listings [sub_any] [diner_detail] =
    [(''bob@example.org'', [diner_detail])]"
  by code_simp

text \<open>
  A subscriber with an address and empty merge fields, next to one who matches: the
  matches are those of the other subscriber alone.
\<close>

theorem C10_skipped_subscriber_witness:
  "skipped sub_empty \<and>
   match_subscribers_to_listings [sub_any, sub_empty] [diner_detail] =
     [(''bob@example.org'', [diner_detail])] \<and>
   ''eve@example.org'' \<notin> group_members (group_subscribers_by_matches
      (match_subscribers_to_listings [sub_any, sub_empty] [diner_detail])) \<and>
   ''eve@example.org'' \<notin> recipients (campaigns_of (notify all_sent [sub_any, sub_empty] [diner_detail])) \<and>
   matched_listings (the (merge_fields sub_empty)) [diner_detail] = [diner_detail]"
proof -
  have h: "skipped sub_empty"
    by (simp add: skipped_def sub_empty_def empty_merge_fields_def)
  note c10 = C10_skipped_subscriber [OF h, of "[sub_any]" "[]" "[diner_detail]" all_sent]
  have ap: "[sub_any] @ sub_empty # [] = [sub_any, sub_empty]" "[sub_any] @ [] = [sub_any]"
    by simp_all
  note c10' = c10 [unfolded ap]
  from c10' [THEN conjunct1] have m: "match_subscribers_to_listings [sub_any, sub_empty] [diner_detail] =
     [(''bob@example.org'', [diner_detail])]"
    by (simp only: match_example)
  have e: "email_address sub_empty = Some ''eve@example.org'' \<and>
      (\<forall>s\<in>set [sub_any]. email_address s = Some ''eve@example.org'' \<longrightarrow> skipped s)"
    by (simp add: sub_empty_def sub_any_def)
  note r = c10' [THEN conjunct2, THEN conjunct2, THEN conjunct1, THEN spec, THEN mp, OF e]
  have mf: "merge_fields sub_empty = Some (the (merge_fields sub_empty)) \<and>
      empty_merge_fields (the (merge_fields sub_empty))"
    by (simp add: sub_empty_def empty_merge_fields_def)
  note q = c10' [THEN conjunct2, THEN conjunct2, THEN conjunct2, THEN conjunct2, THEN spec, THEN mp, OF mf]
  from h m r [THEN conjunct2, THEN conjunct1] r [THEN conjunct2, THEN conjunct2] q show ?thesis
    by (intro conjI)
qed

lemma notify_single_match:
  assumes "match_subscribers_to_listings subs listings = [(e, ml)]"
  shows "notify all_sent subs listings =
         Inr (\<lparr>matched_subscribers = 1, emails_sent = 1, groups_created = 1\<rparr>, [([e], ml)])"
  by (simp add: notify_def assms group_subscribers_by_matches_def group_step_def dispatch_step_def
      all_sent_def Let_def)

text \<open>
  C2 at the failing input: the subscriber's states are the set with the one string
  nevada, the listing's state is nevada, and the listing does not match, because the
  state is compared as the set of its characters (a subscriber whose state were the
  single letter n would match). Of the two subscribers only the one without a state
  constraint is matched, and the one campaign goes to a segment of one member.
\<close>

theorem C2_state_match_on_characters:
  "set (map lower (normalize_list_field (Some ''nevada''))) = {''nevada''} \<and>
   lower (state diner_detail) = ''nevada'' \<and>
   listing_matches_subscriber diner_detail None None {} {''nevada''} {} = False \<and>
   listing_matches_subscriber diner_detail None None {} {''n''} {} = True \<and>
   match_subscribers_to_listings [sub_nevada, sub_any] [diner_detail] =
     [(''bob@example.org'', [diner_detail])] \<and>
   notify all_sent [sub_nevada, sub_any] [diner_detail] =
     Inr (\<lparr>matched_subscribers = 1, emails_sent = 1, groups_created = 1\<rparr>,
          [([''bob@example.org''], [diner_detail])])"
proof -
  have a: "set (map lower (normalize_list_field (Some ''nevada''))) = {''nevada''}"
    by code_simp
  have b: "lower (state diner_detail) = ''nevada''"
    by code_simp
  have c: "listing_matches_subscriber diner_detail None None {} {''nevada''} {} = False"
    by code_simp
  have d: "listing_matches_subscriber diner_detail None None {} {''n''} {} = True"
    by code_simp
  have e: "match_subscribers_to_listings [sub_nevada, sub_any] [diner_detail] =
     [(''bob@example.org'', [diner_detail])]"
    by code_simp
  from a b c d e notify_single_match [OF e] show ?thesis
    by (intro conjI)
qed

subsection \<open>Group keys\<close>

lemma content_perm:
  assumes "mset (map listing_ident l1) = mset (map listing_ident l2)"
  shows "listings_content l1 = listings_content l2"
proof -
  have "mset (sort (map listing_ident l2)) = mset (map listing_ident l1)"
    using assms by simp
  then have "sort (map listing_ident l1) = sort (map listing_ident l2)"
    by (rule properties_for_sort) simp
  then show ?thesis
    by (simp only: listings_content_def)
qed

lemma hash_perm:
  assumes "mset (map listing_ident l1) = mset (map listing_ident l2)"
  shows "create_listings_hash l1 = create_listings_hash l2"
  using content_perm [OF assms] by (simp only: create_listings_hash_def)

lemma group_step_keys:
  "map fst (group_step gs (e, l)) =
   (if create_listings_hash l \<in> fst ` set gs then map fst gs else map fst gs @ [create_listings_hash l])"
  by (simp add: group_step_def Let_def case_prod_unfold comp_def if_distrib cong: if_cong)

lemma group_step_distinct: "distinct (map fst gs) \<Longrightarrow> distinct (map fst (group_step gs em))"
  by (cases em) (simp add: group_step_keys)

lemma add_email_fields:
  fixes g :: "string \<times> string list \<times> detail list"
  shows "fst ((\<lambda>(k, emails, ls). if k = h then (k, emails @ [a], ls) else (k, emails, ls)) g) = fst g"
    and "set (fst (snd g)) \<subseteq>
         set (fst (snd ((\<lambda>(k, emails, ls). if k = h then (k, emails @ [a], ls) else (k, emails, ls)) g)))"
    and "fst g = h \<Longrightarrow>
         a \<in> set (fst (snd ((\<lambda>(k, emails, ls). if k = h then (k, emails @ [a], ls) else (k, emails, ls)) g)))"
proof -
  obtain k emails ls where g: "g = (k, emails, ls)"
    by (cases g rule: prod_cases3)
  show "fst ((\<lambda>(k, emails, ls). if k = h then (k, emails @ [a], ls) else (k, emails, ls)) g) = fst g"
    by (simp add: g)
  show "set (fst (snd g)) \<subseteq>
         set (fst (snd ((\<lambda>(k, emails, ls). if k = h then (k, emails @ [a], ls) else (k, emails, ls)) g)))"
    by (simp add: g subset_insertI)
  show "fst g = h \<Longrightarrow>
         a \<in> set (fst (snd ((\<lambda>(k, emails, ls). if k = h then (k, emails @ [a], ls) else (k, emails, ls)) g)))"
    by (simp add: g)
qed

lemma group_step_unfold:
  "group_step gs (a, l) =
   map (\<lambda>(k, emails, ls). if k = create_listings_hash l then (k, emails @ [a], ls) else (k, emails, ls))
     (if create_listings_hash l \<notin> fst ` set gs then gs @ [(create_listings_hash l, [], l)] else gs)"
  by (simp add: group_step_def Let_def)

lemma group_step_keeps:
  assumes "grouped gs e h"
  shows "grouped (group_step gs em) e h"
proof -
  obtain a l where em: "em = (a, l)" by (cases em)
  let ?h = "create_listings_hash l"
  let ?f = "\<lambda>(k, emails, ls). if k = ?h then (k, emails @ [a], ls) else (k, emails, ls)"
  let ?gs = "if ?h \<notin> fst ` set gs then gs @ [(?h, [], l)] else gs"
  from assms obtain g where g: "g \<in> set gs" "fst g = h" "e \<in> set (fst (snd g))"
    unfolding grouped_def by blast
  from g(1) have "g \<in> set ?gs" by simp
  then have "?f g \<in> ?f ` set ?gs" by (rule imageI)
  then have m: "?f g \<in> set (map ?f ?gs)" by (simp only: set_map)
  have "fst (?f g) = h"
    using g(2) by (simp only: add_email_fields(1))
  moreover have "e \<in> set (fst (snd (?f g)))"
    using g(3) add_email_fields(2) [of g ?h a] by blast
  ultimately have "grouped (map ?f ?gs) e h"
    unfolding grouped_def using m by blast
  then show ?thesis
    by (simp only: em group_step_unfold)
qed

lemma group_step_adds: "grouped (group_step gs (a, l)) a (create_listings_hash l)"
proof -
  let ?h = "create_listings_hash l"
  let ?f = "\<lambda>(k, emails, ls). if k = ?h then (k, emails @ [a], ls) else (k, emails, ls)"
  let ?gs = "if ?h \<notin> fst ` set gs then gs @ [(?h, [], l)] else gs"
  have "\<exists>g\<in>set ?gs. fst g = ?h"
  proof (cases "?h \<in> fst ` set gs")
    case True
    then obtain g where "?h = fst g" "g \<in> set gs" by (rule imageE)
    with True show ?thesis by auto
  next
    case False
    then show ?thesis by simp
  qed
  then obtain g where g: "g \<in> set ?gs" "fst g = ?h" by blast
  from g(1) have "?f g \<in> ?f ` set ?gs" by (rule imageI)
  then have m: "?f g \<in> set (map ?f ?gs)" by (simp only: set_map)
  have "fst (?f g) = ?h"
    using g(2) by (simp only: add_email_fields(1))
  moreover have "a \<in> set (fst (snd (?f g)))"
    using g(2) by (rule add_email_fields(3))
  ultimately have "grouped (map ?f ?gs) a ?h"
    unfolding grouped_def using m by blast
  then show ?thesis
    by (simp only: group_step_unfold)
qed

lemma group_fold_distinct:
  "distinct (map fst gs) \<Longrightarrow> distinct (map fst (foldl group_step gs ms))"
  by (induction ms arbitrary: gs) (simp_all add: group_step_distinct)

lemma group_fold_keeps: "grouped gs e h \<Longrightarrow> grouped (foldl group_step gs ms) e h"
  by (induction ms arbitrary: gs) (simp_all add: group_step_keeps)

lemma group_fold_adds:
  "(e, l) \<in> set ms \<Longrightarrow> grouped (foldl group_step gs ms) e (create_listings_hash l)"
proof (induction ms arbitrary: gs)
  case Nil
  then show ?case by simp
next
  case (Cons m ms)
  show ?case
  proof (cases "m = (e, l)")
    case True
    have "grouped (group_step gs (e, l)) e (create_listings_hash l)"
      by (rule group_step_adds)
    then have "grouped (foldl group_step (group_step gs (e, l)) ms) e (create_listings_hash l)"
      by (rule group_fold_keeps)
    with True show ?thesis by simp
  next
    case False
    with Cons.prems have "(e, l) \<in> set ms" by simp
    then have "grouped (foldl group_step (group_step gs m) ms) e (create_listings_hash l)"
      by (rule Cons.IH)
    then show ?thesis by simp
  qed
qed

lemma same_group:
  assumes "distinct (map fst gs)" "grouped gs e1 h" "grouped gs e2 h"
  shows "\<exists>es ls. (h, es, ls) \<in> set gs \<and> e1 \<in> set es \<and> e2 \<in> set es"
proof -
  from assms(2) obtain g1 where g1: "g1 \<in> set gs" "fst g1 = h" "e1 \<in> set (fst (snd g1))"
    unfolding grouped_def by blast
  from assms(3) obtain g2 where g2: "g2 \<in> set gs" "fst g2 = h" "e2 \<in> set (fst (snd g2))"
    unfolding grouped_def by blast
  from assms(1) have "inj_on fst (set gs)"
    by (simp add: distinct_map)
  with g1 g2 have "g1 = g2"
    by (simp add: inj_on_def)
  with g1 g2 have "(h, fst (snd g1), snd (snd g1)) \<in> set gs" "e2 \<in> set (fst (snd g1))"
    by auto
  with g1(3) show ?thesis by blast
qed

text \<open>
  C4, amended: two subscribers whose matched listings have the same identifiers (url,
  else title) with the same multiplicities, in any order, have the same key and are in
  the same group.
\<close>

theorem C4_same_identifiers_same_group:
  assumes "(e1, l1) \<in> set matches" and "(e2, l2) \<in> set matches"
    and "mset (map listing_ident l1) = mset (map listing_ident l2)"
  shows "create_listings_hash l1 = create_listings_hash l2 \<and>
         (\<exists>es ls. (create_listings_hash l1, es, ls) \<in> set (group_subscribers_by_matches matches) \<and>
                  e1 \<in> set es \<and> e2 \<in> set es)"
proof -
  let ?gs = "group_subscribers_by_matches matches"
  have h: "create_listings_hash l1 = create_listings_hash l2"
    using assms(3) by (rule hash_perm)
  have d: "distinct (map fst ?gs)"
    unfolding group_subscribers_by_matches_def by (rule group_fold_distinct) simp
  have g1: "grouped ?gs e1 (create_listings_hash l1)"
    unfolding group_subscribers_by_matches_def using assms(1) by (rule group_fold_adds)
  have "grouped ?gs e2 (create_listings_hash l2)"
    unfolding group_subscribers_by_matches_def using assms(2) by (rule group_fold_adds)
  then have g2: "grouped ?gs e2 (create_listings_hash l1)"
    by (simp only: h)
  from h same_group [OF d g1 g2] show ?thesis
    by (intro conjI)
qed

text \<open>
  Two subscribers who match the same two listings in opposite orders.
\<close>

theorem C4_same_identifiers_same_group_witness:
  "(''ann@example.org'', [diner_detail, hotel_detail]) \<in>
     set [(''ann@example.org'', [diner_detail, hotel_detail]),
          (''bob@example.org'', [hotel_detail, diner_detail])] \<and>
   (''bob@example.org'', [hotel_detail, diner_detail]) \<in>
     set [(''ann@example.org'', [diner_detail, hotel_detail]),
          (''bob@example.org'', [hotel_detail, diner_detail])] \<and>
   mset (map listing_ident [diner_detail, hotel_detail]) =
     mset (map listing_ident [hotel_detail, diner_detail]) \<and>
   create_listings_hash [diner_detail, hotel_detail] = create_listings_hash [hotel_detail, diner_detail]"
proof -
  have a: "(''ann@example.org'', [diner_detail, hotel_detail]) \<in>
     set [(''ann@example.org'', [diner_detail, hotel_detail]),
          (''bob@example.org'', [hotel_detail, diner_detail])]"
    by simp
  have b: "(''bob@example.org'', [hotel_detail, diner_detail]) \<in>
     set [(''ann@example.org'', [diner_detail, hotel_detail]),
          (''bob@example.org'', [hotel_detail, diner_detail])]"
    by simp
  have c: "mset (map listing_ident [diner_detail, hotel_detail]) =
     mset (map listing_ident [hotel_detail, diner_detail])"
    by simp
  from a b c C4_same_identifiers_same_group [OF a b c, THEN conjunct1] show ?thesis
    by (intro conjI)
qed

lemma content_joined:
  "listings_content [listing_ab] = listings_content [listing_a, listing_b]"
  by code_simp

text \<open>
  Different identifier sets can give the same text to hash: the identifiers are joined
  with a separator that an identifier may contain.
\<close>

lemma separator_collision:
  "set (map listing_ident [listing_ab]) \<noteq> set (map listing_ident [listing_a, listing_b]) \<and>
   create_listings_hash [listing_ab] = create_listings_hash [listing_a, listing_b] \<and>
   group_subscribers_by_matches
     [(''ann@example.org'', [listing_ab]), (''bob@example.org'', [listing_a, listing_b])] =
     [(create_listings_hash [listing_ab], [''ann@example.org'', ''bob@example.org''], [listing_ab])]"
proof -
  have a: "set (map listing_ident [listing_ab]) \<noteq> set (map listing_ident [listing_a, listing_b])"
    by (simp add: listing_ident_def listing_ab_def listing_a_def listing_b_def)
  have b: "create_listings_hash [listing_ab] = create_listings_hash [listing_a, listing_b]"
    by (simp only: create_listings_hash_def content_joined)
  have c: "group_subscribers_by_matches
     [(''ann@example.org'', [listing_ab]), (''bob@example.org'', [listing_a, listing_b])] =
     [(create_listings_hash [listing_ab], [''ann@example.org'', ''bob@example.org''], [listing_ab])]"
    by (simp add: group_subscribers_by_matches_def group_step_def Let_def b [symmetric])
  from a b c show ?thesis
    by (intro conjI)
qed

lemma hash_x: "create_listings_hash [listing_x] = ''92fcd658''"
  by code_simp

lemma hash_y: "create_listings_hash [listing_y] = ''92fcd658''"
  by code_simp

text \<open>
  C4, as stated, fails in its second half: the listings \<open>listing_x\<close> and \<open>listing_y\<close>
  have different identifiers and the same key 92fcd658 (from \<open>hashlib.md5\<close>, cut to
  eight digits), so two subscribers who match one each are put in one group, with the
  listings of the first.
\<close>

theorem C4_counterexample:
  "set (map listing_ident [listing_x]) \<noteq> set (map listing_ident [listing_y]) \<and>
   create_listings_hash [listing_x] = ''92fcd658'' \<and>
   create_listings_hash [listing_y] = ''92fcd658'' \<and>
   group_subscribers_by_matches
     [(''ann@example.org'', [listing_x]), (''bob@example.org'', [listing_y])] =
     [(''92fcd658'', [''ann@example.org'', ''bob@example.org''], [listing_x])]"
proof -
  have a: "set (map listing_ident [listing_x]) \<noteq> set (map listing_ident [listing_y])"
    by (simp add: listing_ident_def listing_x_def listing_y_def)
  have c: "group_subscribers_by_matches
     [(''ann@example.org'', [listing_x]), (''bob@example.org'', [listing_y])] =
     [(''92fcd658'', [''ann@example.org'', ''bob@example.org''], [listing_x])]"
    by (simp add: group_subscribers_by_matches_def group_step_def Let_def hash_x hash_y)
  from a hash_x hash_y c show ?thesis
    by (intro conjI)
qed

end
